theory Spec2Isabelle
  imports Main
begin

section \<open>Characters and character classes\<close>

text \<open>
  The document is a sequence of bytes, modelled as a \<open>string\<close>. Positions are
  \<open>Sci_Position\<close> values (signed), modelled as \<open>int\<close>.
\<close>

abbreviation NUL :: char where "NUL \<equiv> CHR 0x00"
abbreviation LF :: char where "LF \<equiv> CHR 0x0A"
abbreviation CR :: char where "CR \<equiv> CHR 0x0D"
abbreviation DQUOTE :: char where "DQUOTE \<equiv> CHR 0x22"
abbreviation BSLASH :: char where "BSLASH \<equiv> CHR 0x5C"

text \<open>
  Modelled from the spec: \<open>isspacechar\<close> of lexlib's CharacterSet.h is not part of the
  lexer's source file; it is the usual blank-or-control test
  \<open>ch == ' ' || (ch >= 0x09 && ch <= 0x0d)\<close>.
\<close>
definition isspacechar :: "char \<Rightarrow> bool" where
  "isspacechar c = (c = CHR '' '' \<or> c \<in> set [CHR 0x09, CHR 0x0A, CHR 0x0B, CHR 0x0C, CHR 0x0D])"

text \<open>The C library's classification functions, in the C locale.\<close>
definition isdigit :: "char \<Rightarrow> bool" where
  "isdigit c = (c \<in> set ''0123456789'')"

definition isxdigit :: "char \<Rightarrow> bool" where
  "isxdigit c = (c \<in> set ''0123456789abcdefABCDEF'')"

definition isalpha :: "char \<Rightarrow> bool" where
  "isalpha c = (c \<in> set ''abcdefghijklmnopqrstuvwxyzABCDEFGHIJKLMNOPQRSTUVWXYZ'')"

text \<open>\<open>CharacterSet(CharacterSet::setNone, "-,.=:\\@()")\<close>.\<close>
definition setOperators :: "char \<Rightarrow> bool" where
  "setOperators c = (c \<in> set (''-,.=:'' @ [BSLASH] @ ''@()''))"

definition IsByteValue :: "int \<Rightarrow> bool" where
  "IsByteValue v = (v \<ge> 0 \<and> v < 256)"

section \<open>The document accessor\<close>

text \<open>
  Modelled from the spec: \<open>LexAccessor::SafeGetCharAt\<close> (lexlib, not in the lexer's
  source file) is the "random-access query of raw character at a position with a safe
  out-of-range default".
\<close>
definition SafeGetCharAt :: "string \<Rightarrow> int \<Rightarrow> char \<Rightarrow> char" where
  "SafeGetCharAt d pos chDefault =
     (if 0 \<le> pos \<and> pos < int (length d) then d ! nat pos else chDefault)"

section \<open>Lookahead predicates\<close>

definition AtEndOfLine :: "string \<Rightarrow> int \<Rightarrow> bool" where
  "AtEndOfLine d pos =
     (let curr = SafeGetCharAt d pos NUL;
          next = SafeGetCharAt d (pos + 1) NUL
      in curr = NUL \<or> curr = LF \<or> (curr = CR \<and> next \<noteq> LF))"

definition AtBeginOfLine :: "string \<Rightarrow> int \<Rightarrow> bool" where
  "AtBeginOfLine d pos =
     (let prev = SafeGetCharAt d (pos - 1) NUL;
          curr = SafeGetCharAt d pos NUL
      in curr = NUL \<or> prev = LF \<or> (prev = CR \<and> curr \<noteq> LF))"

lemma AtEndOfLine_outside: "pos < 0 \<or> int (length d) \<le> pos \<Longrightarrow> AtEndOfLine d pos"
  by (auto simp: AtEndOfLine_def SafeGetCharAt_def)

lemma AtEndOfLine_inside: "\<not> AtEndOfLine d pos \<Longrightarrow> 0 \<le> pos \<and> pos < int (length d)"
  using AtEndOfLine_outside [of pos d] by force

lemma AtBeginOfLine_outside: "pos < 0 \<or> int (length d) \<le> pos \<Longrightarrow> AtBeginOfLine d pos"
  by (auto simp: AtBeginOfLine_def SafeGetCharAt_def)

lemma AtBeginOfLine_inside: "\<not> AtBeginOfLine d pos \<Longrightarrow> 0 \<le> pos \<and> pos < int (length d)"
  using AtBeginOfLine_outside [of pos d] by force

text \<open>The bounded scan of \<open>AtValueType\<close>: \<open>i\<close> runs from 0 while \<open>i < 10\<close>.\<close>
function AtValueType_loop :: "string \<Rightarrow> int \<Rightarrow> int \<Rightarrow> bool" where
  "AtValueType_loop d start i =
     (if i < 10 then
        (let i' = i + 1;
             curr = SafeGetCharAt d (start + i') NUL
         in if curr = CHR '':'' then True
            else if curr = NUL then False
            else AtValueType_loop d start i')
      else False)"
  by pat_completeness auto
termination
  by (relation "measure (\<lambda>(d, start, i). nat (10 - i))") auto
declare AtValueType_loop.simps [simp del]

definition AtValueType :: "string \<Rightarrow> int \<Rightarrow> bool" where
  "AtValueType d start = AtValueType_loop d start 0"

function IsNextNonWhitespace :: "string \<Rightarrow> int \<Rightarrow> char \<Rightarrow> bool" where
  "IsNextNonWhitespace d start c =
     (if \<not> AtEndOfLine d (start + 1) then
        (let start' = start + 1;
             curr = SafeGetCharAt d start' NUL
         in if curr = c then True
            else if \<not> isspacechar curr then False
            else IsNextNonWhitespace d start' c)
      else False)"
  by pat_completeness auto
termination
  by (relation "measure (\<lambda>(d, start, c). nat (int (length d) - start))")
     (auto dest!: AtEndOfLine_inside)
declare IsNextNonWhitespace.simps [simp del]

function IsPrevNonWhitespace :: "string \<Rightarrow> int \<Rightarrow> char \<Rightarrow> bool" where
  "IsPrevNonWhitespace d start c =
     (if \<not> AtBeginOfLine d (start - 1) then
        (let start' = start - 1;
             curr = SafeGetCharAt d start' NUL
         in if curr = c then True
            else if \<not> isspacechar curr then False
            else IsPrevNonWhitespace d start' c)
      else False)"
  by pat_completeness auto
termination
  by (relation "measure (\<lambda>(d, start, c). nat start)")
     (auto dest!: AtBeginOfLine_inside)
declare IsPrevNonWhitespace.simps [simp del]

text \<open>Looks for the equal sign at the end of the string.\<close>
function AtValueName_loop :: "string \<Rightarrow> int \<Rightarrow> bool \<Rightarrow> bool" where
  "AtValueName_loop d start escaped =
     (if \<not> AtEndOfLine d (start + 1) then
        (let start' = start + 1;
             curr = SafeGetCharAt d start' NUL
         in if escaped then AtValueName_loop d start' False
            else if curr = DQUOTE then IsNextNonWhitespace d start' (CHR ''='')
            else if curr = NUL then False
            else AtValueName_loop d start' (curr = BSLASH))
      else False)"
  by pat_completeness auto
termination
  by (relation "measure (\<lambda>(d, start, e). nat (int (length d) - start))")
     (auto dest!: AtEndOfLine_inside)
declare AtValueName_loop.simps [simp del]

definition AtValueName :: "string \<Rightarrow> int \<Rightarrow> bool" where
  "AtValueName d start = AtValueName_loop d start False"

function AtKeyPathEnd :: "string \<Rightarrow> int \<Rightarrow> bool" where
  "AtKeyPathEnd d start =
     (if \<not> AtEndOfLine d (start + 1) then
        (let start' = start + 1;
             curr = SafeGetCharAt d start' NUL
         in if curr = CHR '']'' then False
            else AtKeyPathEnd d start')
      else True)"
  by pat_completeness auto
termination
  by (relation "measure (\<lambda>(d, start). nat (int (length d) - start))")
     (auto dest!: AtEndOfLine_inside)
declare AtKeyPathEnd.simps [simp del]

text \<open>
  \<open>AtGUID\<close>: the inner loop reads \<open>count\<close> characters, each a hexadecimal digit or a
  hyphen, advancing \<open>offset\<close>; \<open>None\<close> is the early \<open>return false\<close>. The accessor's
  default character here is the blank.
\<close>
function AtGUID_inner :: "string \<Rightarrow> int \<Rightarrow> int \<Rightarrow> int \<Rightarrow> int \<Rightarrow> int option" where
  "AtGUID_inner d start offset i count =
     (if i < count then
        (let digit = SafeGetCharAt d (start + offset) (CHR '' '')
         in if \<not> (isxdigit digit \<or> digit = CHR ''-'') then None
            else AtGUID_inner d start (offset + 1) (i + 1) count)
      else Some offset)"
  by pat_completeness auto
termination
  by (relation "measure (\<lambda>(d, start, offset, i, count). nat (count - i))") auto
declare AtGUID_inner.simps [simp del]

function AtGUID_outer :: "string \<Rightarrow> int \<Rightarrow> int \<Rightarrow> int \<Rightarrow> int \<Rightarrow> bool" where
  "AtGUID_outer d start offset portion count =
     (if portion < 5 then
        (case AtGUID_inner d start offset 0 count of
           None \<Rightarrow> False
         | Some offset' \<Rightarrow>
             (let portion' = portion + 1;
                  count' = (if portion' = 4 then 13 else 5)
              in AtGUID_outer d start offset' portion' count'))
      else SafeGetCharAt d (start + offset) (CHR '' '') = CHR ''}'')"
  by pat_completeness auto
termination
  by (relation "measure (\<lambda>(d, start, offset, portion, count). nat (5 - portion))") auto
declare AtGUID_outer.simps [simp del]

definition AtGUID :: "string \<Rightarrow> int \<Rightarrow> bool" where
  "AtGUID d start = AtGUID_outer d start 1 0 8"

section \<open>Styles and the line table of the document\<close>

text \<open>The \<open>SCE_REG_*\<close> lexical states, in the order of their numeric values 0 to 12.\<close>
datatype style =
  Default | Comment | ValueName | String | HexDigit | ValueType | AddedKey | DeletedKey
  | Escaped | KeyPathGuid | StringGuid | Parameter | Operator

definition IsStringState :: "style \<Rightarrow> bool" where
  "IsStringState st = (st = ValueName \<or> st = String)"

definition IsKeyPathState :: "style \<Rightarrow> bool" where
  "IsKeyPathState st = (st = AddedKey \<or> st = DeletedKey)"

text \<open>
  Modelled from the spec: the host document's "line-number-from-offset lookup"
  (\<open>GetLine\<close>, \<open>LineStart\<close>; the document class is not in the lexer's source file).
  A line ends after a line feed, or after a carriage return that is not followed by a
  line feed; a line past the last one starts at the document's length.
\<close>
fun line_starts_from :: "string \<Rightarrow> int \<Rightarrow> int list" where
  "line_starts_from [] i = []"
| "line_starts_from (c # cs) i =
     (if c = LF \<or> (c = CR \<and> (case cs of [] \<Rightarrow> True | c' # _ \<Rightarrow> c' \<noteq> LF))
      then (i + 1) # line_starts_from cs (i + 1)
      else line_starts_from cs (i + 1))"

definition LineStarts :: "string \<Rightarrow> int list" where
  "LineStarts d = 0 # line_starts_from d 0"

definition LinesTotal :: "string \<Rightarrow> int" where
  "LinesTotal d = int (length (LineStarts d))"

definition LineStart :: "string \<Rightarrow> int \<Rightarrow> int" where
  "LineStart d line =
     (if line < 0 then 0
      else if line \<ge> LinesTotal d then int (length d)
      else LineStarts d ! nat line)"

definition GetLine :: "string \<Rightarrow> int \<Rightarrow> int" where
  "GetLine d pos = max 0 (int (length (filter (\<lambda>s. s \<le> pos) (LineStarts d))) - 1)"

section \<open>The scan cursor\<close>

text \<open>
  Modelled from the spec: lexlib's \<open>StyleContext\<close> and the styling half of
  \<open>LexAccessor\<close> are not in the lexer's source file. They are the "forward scan cursor
  with current/next/previous character peeks and an explicit commit current style then
  advance operation". The model is the single-byte one: every character is one byte
  wide. \<open>startSeg\<close> is the first position not yet given a style and \<open>styleBuf\<close> holds,
  in order, the styles handed to the document since styling started at the start
  position: one entry per position.
\<close>
record StyleContext =
  currentPos :: int
  endPos :: int
  lengthDocument :: int
  currentLine :: int
  lineDocEnd :: int
  lineStartNext :: int
  atLineStart :: bool
  atLineEnd :: bool
  state :: style
  chPrev :: char
  ch :: char
  chNext :: char
  startSeg :: int
  styleBuf :: "style list"

definition GetNextChar :: "string \<Rightarrow> 'a StyleContext_scheme \<Rightarrow> 'a StyleContext_scheme" where
  "GetNextChar d c =
     c\<lparr>chNext := SafeGetCharAt d (currentPos c + 1) NUL,
       atLineEnd := (if currentLine c < lineDocEnd c
                     then currentPos c \<ge> lineStartNext c - 1
                     else currentPos c \<ge> lineStartNext c)\<rparr>"

text \<open>
  \<open>ColourTo\<close> gives the style to the positions from \<open>startSeg\<close> to \<open>pos\<close>. The
  positions are unsigned in the source; \<open>pos = startSeg - 1\<close> also covers the wrapped
  \<open>0 - 1\<close>.
\<close>
definition ColourTo :: "'a StyleContext_scheme \<Rightarrow> int \<Rightarrow> style \<Rightarrow> 'a StyleContext_scheme" where
  "ColourTo c pos chAttr =
     (if pos \<noteq> startSeg c - 1 then
        (if pos < startSeg c then c
         else c\<lparr>startSeg := pos + 1,
                styleBuf := styleBuf c @ replicate (nat (pos - startSeg c + 1)) chAttr\<rparr>)
      else c\<lparr>startSeg := pos + 1\<rparr>)"

text \<open>
  The position up to which \<open>SetState\<close>, \<open>ForwardSetState\<close> and \<open>Complete\<close> colour:
  \<open>currentPos - ((currentPos > lengthDocument) ? 2 : 1)\<close>.
\<close>
definition colourPos :: "'a StyleContext_scheme \<Rightarrow> int" where
  "colourPos c = currentPos c - (if currentPos c > lengthDocument c then 2 else 1)"

definition More :: "'a StyleContext_scheme \<Rightarrow> bool" where
  "More c = (currentPos c < endPos c)"

definition Forward :: "string \<Rightarrow> 'a StyleContext_scheme \<Rightarrow> 'a StyleContext_scheme" where
  "Forward d c =
     (if currentPos c < endPos c then
        (let c1 = c\<lparr>atLineStart := atLineEnd c\<rparr>;
             c2 = (if atLineStart c1
                   then c1\<lparr>currentLine := currentLine c1 + 1,
                           lineStartNext := LineStart d (currentLine c1 + 2)\<rparr>
                   else c1);
             c3 = c2\<lparr>chPrev := ch c2, currentPos := currentPos c2 + 1, ch := chNext c2\<rparr>
         in GetNextChar d c3)
      else c\<lparr>atLineStart := False, chPrev := CHR '' '', ch := CHR '' '',
              chNext := CHR '' '', atLineEnd := True\<rparr>)"

definition SetState :: "'a StyleContext_scheme \<Rightarrow> style \<Rightarrow> 'a StyleContext_scheme" where
  "SetState c st = (ColourTo c (colourPos c) (state c))\<lparr>state := st\<rparr>"

definition ForwardSetState ::
  "string \<Rightarrow> 'a StyleContext_scheme \<Rightarrow> style \<Rightarrow> 'a StyleContext_scheme" where
  "ForwardSetState d c st = SetState (Forward d c) st"

definition Complete :: "'a StyleContext_scheme \<Rightarrow> 'a StyleContext_scheme" where
  "Complete c = ColourTo c (colourPos c) (state c)"

text \<open>The constructor of the cursor, for the span of \<open>length\<close> positions from \<open>startPos\<close>.\<close>
definition StyleContext_init :: "string \<Rightarrow> int \<Rightarrow> int \<Rightarrow> style \<Rightarrow> StyleContext" where
  "StyleContext_init d startPos len initStyle =
     (let lengthDoc = int (length d);
          endPos0 = startPos + len;
          line = GetLine d startPos;
          c = \<lparr>currentPos = startPos,
               endPos = (if endPos0 = lengthDoc then endPos0 + 1 else endPos0),
               lengthDocument = lengthDoc,
               currentLine = line,
               lineDocEnd = GetLine d lengthDoc,
               lineStartNext = LineStart d (line + 1),
               atLineStart = (LineStart d line = startPos),
               atLineEnd = False,
               state = initStyle,
               chPrev = NUL,
               ch = SafeGetCharAt d startPos NUL,
               chNext = NUL,
               startSeg = startPos,
               styleBuf = []\<rparr>
      in GetNextChar d c)"

section \<open>The tokenizer\<close>

text \<open>The cursor together with the local variables of \<open>LexerRegistry::Lex\<close>.\<close>
record LexState = StyleContext +
  beforeGUID :: style
  beforeEscape :: style
  highlight :: bool
  afterEqualSign :: bool
  stateLastNonDefault :: style

text \<open>\<open>newState\<close> is \<open>None\<close> for the source's \<open>-1\<close> (advance without a new state).\<close>
definition ContextForwardSetState :: "string \<Rightarrow> LexState \<Rightarrow> style option \<Rightarrow> LexState" where
  "ContextForwardSetState d s newState =
     (let s1 = (if state s \<noteq> Default then s\<lparr>stateLastNonDefault := state s\<rparr> else s)
      in case newState of
           Some st \<Rightarrow> ForwardSetState d s1 st
         | None \<Rightarrow> Forward d s1)"

definition Lex_init :: "string \<Rightarrow> int \<Rightarrow> int \<Rightarrow> style \<Rightarrow> LexState" where
  "Lex_init d startPos len initStyle =
     StyleContext.extend (StyleContext_init d startPos len initStyle)
       (LexState.fields Default Default True False Default)"

text \<open>The check at the start of a line (the first statement of the loop body).\<close>
definition LexLineStart :: "string \<Rightarrow> LexState \<Rightarrow> LexState" where
  "LexLineStart d s =
     (if atLineStart s then
        (let currPos = currentPos s;
             continued = IsPrevNonWhitespace d currPos BSLASH;
             s1 = s\<lparr>highlight := (if continued then True else False)\<rparr>
         in if \<not> continued
            then (SetState s1 Default)\<lparr>stateLastNonDefault := Default\<rparr>
            else s1)
      else s)"

definition LexStringCase :: "string \<Rightarrow> LexState \<Rightarrow> LexState" where
  "LexStringCase d s =
     (let currPos = currentPos s;
          s1 = (if ch s = DQUOTE then ContextForwardSetState d s (Some Default)
                else if ch s = BSLASH
                then Forward d (SetState (s\<lparr>beforeEscape := state s\<rparr>) Escaped)
                else if ch s = CHR ''{''
                then (if AtGUID d currPos
                      then SetState (s\<lparr>beforeGUID := state s\<rparr>) StringGuid
                      else s)
                else s)
      in if state s1 = String \<and> ch s1 = CHR ''%''
            \<and> (isdigit (chNext s1) \<or> chNext s1 = CHR ''*'')
         then SetState s1 Parameter
         else s1)"

definition LexKeyPathCase :: "string \<Rightarrow> LexState \<Rightarrow> LexState" where
  "LexKeyPathCase d s =
     (let currPos = currentPos s
      in if ch s = CHR '']'' \<and> AtKeyPathEnd d currPos
         then ContextForwardSetState d s (Some Default)
         else if ch s = CHR ''{''
         then (if AtGUID d currPos
               then SetState (s\<lparr>beforeGUID := state s\<rparr>) KeyPathGuid
               else s)
         else s)"

definition LexEscapedCase :: "string \<Rightarrow> LexState \<Rightarrow> LexState" where
  "LexEscapedCase d s =
     (if ch s = DQUOTE
      then ContextForwardSetState d (SetState s (beforeEscape s)) (Some Default)
      else if ch s = BSLASH then Forward d s
      else (SetState s (beforeEscape s))\<lparr>beforeEscape := Default\<rparr>)"

definition LexGuidCase :: "string \<Rightarrow> LexState \<Rightarrow> LexState" where
  "LexGuidCase d s =
     (let s1 = (if ch s = CHR ''}''
                then (ContextForwardSetState d s (Some (beforeGUID s)))\<lparr>beforeGUID := Default\<rparr>
                else s);
          currPos = currentPos s1
      in if ch s1 = DQUOTE \<and> IsStringState (state s1)
         then ContextForwardSetState d s1 (Some Default)
         else if ch s1 = CHR '']'' \<and> IsKeyPathState (state s1)
         then (if AtKeyPathEnd d currPos
               then ContextForwardSetState d s1 (Some Default)
               else ContextForwardSetState d s1 (Some (beforeGUID s1)))
         else if ch s1 = BSLASH \<and> IsStringState (state s1)
         then Forward d (SetState (s1\<lparr>beforeEscape := state s1\<rparr>) Escaped)
         else s1)"

text \<open>The \<open>switch\<close> on the current state.\<close>
definition LexSwitch :: "string \<Rightarrow> LexState \<Rightarrow> LexState" where
  "LexSwitch d s =
     (case state s of
        Comment \<Rightarrow> (if atLineEnd s then SetState s Default else s)
      | ValueName \<Rightarrow> LexStringCase d s
      | String \<Rightarrow> LexStringCase d s
      | Parameter \<Rightarrow>
          (let s1 = ContextForwardSetState d s (Some String)
           in if ch s1 = DQUOTE then ContextForwardSetState d s1 (Some Default) else s1)
      | ValueType \<Rightarrow>
          (if ch s = CHR '':'' then (SetState s Default)\<lparr>afterEqualSign := False\<rparr> else s)
      | HexDigit \<Rightarrow> SetState s Default
      | Operator \<Rightarrow> SetState s Default
      | DeletedKey \<Rightarrow> LexKeyPathCase d s
      | AddedKey \<Rightarrow> LexKeyPathCase d s
      | Escaped \<Rightarrow> LexEscapedCase d s
      | StringGuid \<Rightarrow> LexGuidCase d s
      | KeyPathGuid \<Rightarrow> LexGuidCase d s
      | Default \<Rightarrow> s)"

text \<open>Determine if a new state should be entered.\<close>
definition LexDefault :: "string \<Rightarrow> LexState \<Rightarrow> LexState" where
  "LexDefault d s =
     (if state s = Default then
        (let currPos = currentPos s;
             s1 = (if ch s = CHR '';'' then SetState s Comment
                   else if ch s = DQUOTE
                   then (if AtValueName d currPos then SetState s ValueName
                         else SetState s String)
                   else if ch s = CHR ''[''
                   then (if IsNextNonWhitespace d currPos (CHR ''-'') then SetState s DeletedKey
                         else SetState s AddedKey)
                   else if ch s = CHR ''=''
                   then s\<lparr>afterEqualSign := True, highlight := True\<rparr>
                   else if afterEqualSign s
                   then (let wordStart = (isalpha (ch s) \<and> \<not> isalpha (chPrev s))
                         in if wordStart \<and> AtValueType d currPos then SetState s ValueType
                            else s)
                   else if IsByteValue (of_char (ch s)) \<and> isxdigit (ch s) \<and> highlight s
                   then SetState s HexDigit
                   else s);
             s2 = s1\<lparr>highlight := (if ch s1 = CHR ''@'' then True else highlight s1)\<rparr>;
             s3 = (if setOperators (ch s2) \<and> highlight s2 then SetState s2 Operator else s2);
             s4 = (if ch s3 = CR \<or> ch s3 = LF then SetState s3 (stateLastNonDefault s3)
                   else s3)
         in s4)
      else s)"

text \<open>One pass through the body of the \<open>while\<close> loop.\<close>
definition LexStep :: "string \<Rightarrow> LexState \<Rightarrow> LexState" where
  "LexStep d s =
     ContextForwardSetState d (LexDefault d (LexSwitch d (LexLineStart d s))) None"

section \<open>The loop of the tokenizer terminates\<close>

text \<open>
  Every operation of the cursor leaves the end of the span alone and never moves the
  position backwards; the advance that ends the loop body moves it forwards.
\<close>
definition adv :: "LexState \<Rightarrow> LexState \<Rightarrow> bool" where
  "adv s s' = (endPos s' = endPos s \<and> currentPos s \<le> currentPos s')"

lemma adv_refl: "adv s s" by (simp add: adv_def)
lemma adv_trans: "adv a b \<Longrightarrow> adv b c \<Longrightarrow> adv a c" by (simp add: adv_def)

lemma ColourTo_frame [simp]:
  "currentPos (ColourTo c p a) = currentPos c"
  "endPos (ColourTo c p a) = endPos c"
  "lengthDocument (ColourTo c p a) = lengthDocument c"
  "state (ColourTo c p a) = state c"
  "ch (ColourTo c p a) = ch c"
  "chNext (ColourTo c p a) = chNext c"
  "chPrev (ColourTo c p a) = chPrev c"
  "atLineStart (ColourTo c p a) = atLineStart c"
  "atLineEnd (ColourTo c p a) = atLineEnd c"
  "currentLine (ColourTo c p a) = currentLine c"
  "lineDocEnd (ColourTo c p a) = lineDocEnd c"
  "lineStartNext (ColourTo c p a) = lineStartNext c"
  "StyleContext.more (ColourTo c p a) = StyleContext.more c"
  by (simp_all add: ColourTo_def)

lemma SetState_frame [simp]:
  "currentPos (SetState c st) = currentPos c"
  "endPos (SetState c st) = endPos c"
  "lengthDocument (SetState c st) = lengthDocument c"
  "state (SetState c st) = st"
  "ch (SetState c st) = ch c"
  "chNext (SetState c st) = chNext c"
  "chPrev (SetState c st) = chPrev c"
  "atLineStart (SetState c st) = atLineStart c"
  "atLineEnd (SetState c st) = atLineEnd c"
  "currentLine (SetState c st) = currentLine c"
  "lineDocEnd (SetState c st) = lineDocEnd c"
  "lineStartNext (SetState c st) = lineStartNext c"
  "StyleContext.more (SetState c st) = StyleContext.more c"
  by (simp_all add: SetState_def)

lemma SetState_locals [simp]:
  "beforeGUID (SetState s st) = beforeGUID s"
  "beforeEscape (SetState s st) = beforeEscape s"
  "highlight (SetState s st) = highlight s"
  "afterEqualSign (SetState s st) = afterEqualSign s"
  "stateLastNonDefault (SetState s st) = stateLastNonDefault s"
  by (simp_all add: SetState_def ColourTo_def)

lemma Forward_frame [simp]:
  "endPos (Forward d c) = endPos c"
  "lengthDocument (Forward d c) = lengthDocument c"
  "state (Forward d c) = state c"
  "startSeg (Forward d c) = startSeg c"
  "styleBuf (Forward d c) = styleBuf c"
  "lineDocEnd (Forward d c) = lineDocEnd c"
  "StyleContext.more (Forward d c) = StyleContext.more c"
  "currentPos (Forward d c) = (if currentPos c < endPos c then currentPos c + 1 else currentPos c)"
  by (simp_all add: Forward_def GetNextChar_def Let_def)

lemma Forward_locals [simp]:
  "beforeGUID (Forward d s) = beforeGUID s"
  "beforeEscape (Forward d s) = beforeEscape s"
  "highlight (Forward d s) = highlight s"
  "afterEqualSign (Forward d s) = afterEqualSign s"
  "stateLastNonDefault (Forward d s) = stateLastNonDefault s"
  by (simp_all add: Forward_def GetNextChar_def Let_def)

lemma adv_SetState: "adv s (SetState s st)" by (simp add: adv_def)
lemma adv_Forward: "adv s (Forward d s)" by (simp add: adv_def)
lemma adv_CFSS: "adv s (ContextForwardSetState d s n)"
  by (simp add: adv_def ContextForwardSetState_def ForwardSetState_def split: option.splits)

lemma adv_LexLineStart: "adv s (LexLineStart d s)"
  by (simp add: adv_def LexLineStart_def Let_def)

lemma adv_LexStringCase: "adv s (LexStringCase d s)"
  by (simp add: adv_def LexStringCase_def ContextForwardSetState_def ForwardSetState_def Let_def)

lemma adv_LexKeyPathCase: "adv s (LexKeyPathCase d s)"
  by (simp add: adv_def LexKeyPathCase_def ContextForwardSetState_def ForwardSetState_def Let_def)

lemma adv_LexEscapedCase: "adv s (LexEscapedCase d s)"
  by (simp add: adv_def LexEscapedCase_def ContextForwardSetState_def ForwardSetState_def Let_def)

lemma adv_LexGuidCase: "adv s (LexGuidCase d s)"
  by (simp add: adv_def LexGuidCase_def ContextForwardSetState_def ForwardSetState_def Let_def)

lemma adv_LexSwitch: "adv s (LexSwitch d s)"
  unfolding LexSwitch_def
  by (cases "state s")
     (simp_all add: adv_refl adv_SetState adv_LexStringCase adv_LexKeyPathCase
        adv_LexEscapedCase adv_LexGuidCase Let_def,
      simp_all add: adv_def ContextForwardSetState_def ForwardSetState_def)

lemma adv_LexDefault: "adv s (LexDefault d s)"
  by (simp add: adv_def LexDefault_def Let_def)

lemma LexStep_progress:
  assumes "currentPos s < endPos s"
  shows "endPos (LexStep d s) = endPos s \<and> currentPos s < currentPos (LexStep d s)"
proof -
  let ?p = "LexDefault d (LexSwitch d (LexLineStart d s))"
  have "adv s ?p"
    by (meson adv_trans adv_LexLineStart adv_LexSwitch adv_LexDefault)
  then show ?thesis using assms
    by (auto simp: LexStep_def adv_def ContextForwardSetState_def)
qed

function Lex_loop :: "string \<Rightarrow> LexState \<Rightarrow> LexState" where
  "Lex_loop d s = (if More s \<and> ch s \<noteq> NUL then Lex_loop d (LexStep d s) else s)"
  by pat_completeness auto
termination
proof (relation "measure (\<lambda>(d, s). nat (endPos s - currentPos s))")
  fix d :: string and s :: LexState
  assume "More s \<and> ch s \<noteq> NUL"
  then have less: "currentPos s < endPos s"
    by (simp add: More_def)
  from LexStep_progress [OF less, of d]
  show "((d, LexStep d s), (d, s)) \<in> measure (\<lambda>(d, s). nat (endPos s - currentPos s))"
    using less by simp
qed simp
declare Lex_loop.simps [simp del]

definition Lex :: "string \<Rightarrow> int \<Rightarrow> int \<Rightarrow> style \<Rightarrow> LexState" where
  "Lex d startPos len initStyle = Complete (Lex_loop d (Lex_init d startPos len initStyle))"

section \<open>Options and the property interface\<close>

record OptionsRegistry =
  foldCompact :: bool
  fold :: bool

definition OptionsRegistry_init :: OptionsRegistry where
  "OptionsRegistry_init = \<lparr>foldCompact = False, fold = False\<rparr>"

text \<open>
  Modelled from the spec: \<open>OptionSet<T>::PropertySet\<close> (lexlib's OptionSet.h) is not in
  the lexer's source file. The spec says of it: "setting an unrecognized property key
  returns a not-found indication; all recognized keys always succeed". The keys are the
  two that the constructor of \<open>OptionSetRegistry\<close> defines, both bound to boolean
  options; how the value text is read as a boolean is not described and is the parameter
  \<open>toBool\<close>.
\<close>
definition OptionSet_PropertySet ::
  "(string \<Rightarrow> bool) \<Rightarrow> OptionsRegistry \<Rightarrow> string \<Rightarrow> string \<Rightarrow> bool \<times> OptionsRegistry" where
  "OptionSet_PropertySet toBool opts name val =
     (if name = ''fold.compact'' then (True, opts\<lparr>foldCompact := toBool val\<rparr>)
      else if name = ''fold'' then (True, opts\<lparr>fold := toBool val\<rparr>)
      else (False, opts))"

text \<open>\<open>LexerRegistry::PropertySet\<close>: 0 when the option set accepts the key, -1 otherwise.\<close>
definition PropertySet ::
  "(string \<Rightarrow> bool) \<Rightarrow> OptionsRegistry \<Rightarrow> string \<Rightarrow> string \<Rightarrow> int \<times> OptionsRegistry" where
  "PropertySet toBool opts key val =
     (case OptionSet_PropertySet toBool opts key val of
        (ok, opts') \<Rightarrow> (if ok then 0 else - 1, opts'))"

section \<open>The folder\<close>

unbundle bit_operations_syntax

text \<open>The fold-level constants of Scintilla.h.\<close>
abbreviation SC_FOLDLEVELBASE :: int where "SC_FOLDLEVELBASE \<equiv> 0x400"
abbreviation SC_FOLDLEVELWHITEFLAG :: int where "SC_FOLDLEVELWHITEFLAG \<equiv> 0x1000"
abbreviation SC_FOLDLEVELHEADERFLAG :: int where "SC_FOLDLEVELHEADERFLAG \<equiv> 0x2000"

text \<open>
  Modelled from the spec: the host's "per-line query/set of an integer fold-level
  record" (\<open>LevelAt\<close>, \<open>SetLevel\<close>; the document class is not in the lexer's source
  file). \<open>levelStore\<close> is the stored level of each line. \<open>levelWrites\<close> records the
  calls of \<open>SetLevel\<close> in order: the line, the level stored there before the call, and
  the level written.
\<close>
record LevelStore =
  levelStore :: "int \<Rightarrow> int"
  levelWrites :: "(int \<times> int \<times> int) list"

definition LevelAt :: "'a LevelStore_scheme \<Rightarrow> int \<Rightarrow> int" where
  "LevelAt st line = levelStore st line"

definition SetLevel :: "'a LevelStore_scheme \<Rightarrow> int \<Rightarrow> int \<Rightarrow> 'a LevelStore_scheme" where
  "SetLevel st line level =
     st\<lparr>levelStore := (levelStore st)(line := level),
        levelWrites := levelWrites st @ [(line, levelStore st line, level)]\<rparr>"

text \<open>A document on which no level has been set: every line is at the base level.\<close>
definition LevelStore_init :: LevelStore where
  "LevelStore_init = \<lparr>levelStore = (\<lambda>line. SC_FOLDLEVELBASE), levelWrites = []\<rparr>"

text \<open>Modelled from the spec: the host's style query, reading the styles the tokenizer stored.\<close>
definition StyleAt :: "style list \<Rightarrow> int \<Rightarrow> style" where
  "StyleAt styles i = (if 0 \<le> i \<and> i < int (length styles) then styles ! nat i else Default)"

text \<open>The local variables of \<open>LexerRegistry::Fold\<close>, on top of the level store.\<close>
record FoldState = LevelStore +
  currLine :: int
  visibleChars :: int
  atKeyPath :: bool

text \<open>
  The level a line takes from the line before it; \<open>Fold\<close> computes it in the loop and
  once more after the loop.
\<close>
definition levelFromPrevious :: "FoldState \<Rightarrow> int" where
  "levelFromPrevious st =
     (let level = SC_FOLDLEVELBASE
      in if currLine st > 0 then
           (let prevLevel = LevelAt st (currLine st - 1)
            in if prevLevel AND SC_FOLDLEVELHEADERFLAG \<noteq> 0 then level + 1 else prevLevel)
         else level)"

text \<open>The body of the \<open>for\<close> loop, at position \<open>i\<close>.\<close>
definition Fold_body ::
  "string \<Rightarrow> style list \<Rightarrow> OptionsRegistry \<Rightarrow> int \<Rightarrow> int \<Rightarrow> FoldState \<Rightarrow> FoldState" where
  "Fold_body d styles options endP i st =
     (let st1 = st\<lparr>atKeyPath := (if IsKeyPathState (StyleAt styles i) then True
                                  else atKeyPath st)\<rparr>;
          curr = SafeGetCharAt d i (CHR '' '');
          next = SafeGetCharAt d (i + 1) (CHR '' '');
          atEOL = ((curr = CR \<and> next \<noteq> LF) \<or> curr = LF);
          st2 = (if atEOL \<or> i = endP - 1 then
                   (let level0 = levelFromPrevious st1;
                        level = (if visibleChars st1 = 0 \<and> foldCompact options
                                 then level0 OR SC_FOLDLEVELWHITEFLAG
                                 else if atKeyPath st1
                                 then SC_FOLDLEVELBASE OR SC_FOLDLEVELHEADERFLAG
                                 else level0);
                        st' = (if level \<noteq> LevelAt st1 (currLine st1)
                               then SetLevel st1 (currLine st1) level
                               else st1)
                    in st'\<lparr>currLine := currLine st' + 1, visibleChars := 0,
                           atKeyPath := False\<rparr>)
                 else st1)
      in if \<not> isspacechar curr then st2\<lparr>visibleChars := visibleChars st2 + 1\<rparr> else st2)"

function Fold_loop ::
  "string \<Rightarrow> style list \<Rightarrow> OptionsRegistry \<Rightarrow> int \<Rightarrow> int \<Rightarrow> FoldState \<Rightarrow> FoldState" where
  "Fold_loop d styles options endP i st =
     (if i < endP
      then Fold_loop d styles options endP (i + 1) (Fold_body d styles options endP i st)
      else st)"
  by pat_completeness auto
termination
  by (relation "measure (\<lambda>(d, styles, options, endP, i, st). nat (endP - i))") auto
declare Fold_loop.simps [simp del]

text \<open>Make the folding reach the last line in the file.\<close>
definition Fold_extend :: "FoldState \<Rightarrow> FoldState" where
  "Fold_extend st = SetLevel st (currLine st) (levelFromPrevious st)"

text \<open>The \<open>for\<close> loop over the span, from the initial values of the local variables.\<close>
definition Fold_scan ::
  "string \<Rightarrow> style list \<Rightarrow> OptionsRegistry \<Rightarrow> int \<Rightarrow> int \<Rightarrow> LevelStore \<Rightarrow> FoldState" where
  "Fold_scan d styles options startPos len h =
     Fold_loop d styles options (startPos + len) startPos
       (LevelStore.extend h (FoldState.fields (GetLine d startPos) 0 False))"

definition Fold ::
  "string \<Rightarrow> style list \<Rightarrow> OptionsRegistry \<Rightarrow> int \<Rightarrow> int \<Rightarrow> LevelStore \<Rightarrow> LevelStore" where
  "Fold d styles options startPos len h =
     (if \<not> fold options then h
      else LevelStore.truncate (Fold_extend (Fold_scan d styles options startPos len h)))"

section \<open>The line ahead of a position, as the specification words it\<close>

text \<open>
  The characters of a line up to its end: the end of the text (or a NUL), a line feed, or
  a carriage return that no line feed follows.
\<close>
fun upto_eol :: "string \<Rightarrow> string" where
  "upto_eol [] = []"
| "upto_eol (c # cs) =
     (if c = NUL \<or> c = LF \<or> (c = CR \<and> (case cs of [] \<Rightarrow> True | c' # _ \<Rightarrow> c' \<noteq> LF))
      then [] else c # upto_eol cs)"

text \<open>The rest of the line after position \<open>pos\<close>.\<close>
definition rest_of_line :: "string \<Rightarrow> int \<Rightarrow> string" where
  "rest_of_line d pos = upto_eol (drop (nat (pos + 1)) d)"

text \<open>The next non-whitespace character of a line, if there is one.\<close>
definition next_significant :: "string \<Rightarrow> char option" where
  "next_significant line = (case dropWhile isspacechar line of [] \<Rightarrow> None | x # _ \<Rightarrow> Some x)"

text \<open>
  The previous line, read backwards from the start of a line at \<open>pos\<close>: the
  characters before \<open>pos\<close>, last first, down to and with the first character of the
  line they are in (the character that directly follows a line end, or the first
  character of the text). A trailing backslash of the previous line is reachable by the
  backward whitespace-skip when it is the next non-whitespace character of this text.
\<close>
fun back_to_line_start :: "string \<Rightarrow> string" where
  "back_to_line_start [] = []"
| "back_to_line_start (c # rest) =
     (case rest of
        [] \<Rightarrow> [c]
      | p # _ \<Rightarrow> if p = LF \<or> (p = CR \<and> c \<noteq> LF) then [c]
                 else c # back_to_line_start rest)"

definition line_before :: "string \<Rightarrow> int \<Rightarrow> string" where
  "line_before d pos = back_to_line_start (rev (take (nat pos) d))"



text \<open>
  The shape of a GUID after its opening brace: 36 characters, each a hexadecimal digit or
  a hyphen (the groups of 8, 4, 4, 4 and 12 digits and the four hyphens of the canonical
  form, wherever the hyphens stand), and then the closing brace.
\<close>
definition hex_or_hyphen :: "char \<Rightarrow> bool" where
  "hex_or_hyphen c = (isxdigit c \<or> c = CHR ''-'')"

definition guid_shape :: "string \<Rightarrow> bool" where
  "guid_shape cs =
     (37 \<le> length cs \<and> (\<forall>c\<in>set (take 36 cs). hex_or_hyphen c) \<and> cs ! 36 = CHR ''}'')"

text \<open>A recorded call of \<open>SetLevel\<close> that stores a level other than the one stored before.\<close>
definition changes_level :: "int \<times> int \<times> int \<Rightarrow> bool" where
  "changes_level w = (case w of (line, old, new) \<Rightarrow> old \<noteq> new)"

section \<open>Coverage of the span\<close>

text \<open>
  What holds of the cursor throughout a scan of the span that starts at \<open>sp\<close> and whose
  end, as the cursor keeps it, is \<open>e\<close>: the styles handed over so far are those of the
  positions from \<open>sp\<close> up to \<open>startSeg\<close>, one for each; the cursor is inside the
  span, not behind the committed styles; and the character peeks agree with the text.
\<close>
definition cursor_ok :: "string \<Rightarrow> int \<Rightarrow> int \<Rightarrow> 'a StyleContext_scheme \<Rightarrow> bool" where
  "cursor_ok d sp e c =
     (endPos c = e \<and> lengthDocument c = int (length d)
      \<and> sp \<le> startSeg c \<and> startSeg c \<le> currentPos c \<and> startSeg c \<le> lengthDocument c
      \<and> currentPos c \<le> endPos c \<and> endPos c \<le> lengthDocument c + 1
      \<and> int (length (styleBuf c)) = startSeg c - sp
      \<and> (currentPos c < endPos c \<longrightarrow>
            ch c = SafeGetCharAt d (currentPos c) NUL
            \<and> chNext c = SafeGetCharAt d (currentPos c + 1) NUL))"

text \<open>
  Position \<open>p\<close> of the span, which the cursor has passed, is settled on the style
  \<open>st\<close>: that style is either already handed over for it or is the state the next
  hand-over will give it.
\<close>
definition settled ::
  "string \<Rightarrow> int \<Rightarrow> int \<Rightarrow> int \<Rightarrow> style \<Rightarrow> 'a StyleContext_scheme \<Rightarrow> bool" where
  "settled d sp e p st c =
     (cursor_ok d sp e c \<and> sp \<le> p \<and> p < currentPos c \<and> p < lengthDocument c
      \<and> (if p < startSeg c then styleBuf c ! nat (p - sp) = st else state c = st))"

text \<open>
  The state of the tokenizer at the top of the loop of \<open>Lex\<close> after \<open>n\<close> passes (or
  where the loop stopped, if it stopped before).
\<close>
fun Lex_after :: "nat \<Rightarrow> string \<Rightarrow> LexState \<Rightarrow> LexState" where
  "Lex_after 0 d s = s"
| "Lex_after (Suc n) d s =
     (if More s \<and> ch s \<noteq> NUL then Lex_after n d (LexStep d s) else s)"

text \<open>The span holds no NUL character.\<close>
definition no_NUL_in_span :: "string \<Rightarrow> int \<Rightarrow> int \<Rightarrow> bool" where
  "no_NUL_in_span d startPos len = (NUL \<notin> set (take (nat len) (drop (nat startPos) d)))"

text \<open>
  Tokens: the maximal runs of positions that share a style, each with its text.
\<close>
fun style_runs :: "(style \<times> char) list \<Rightarrow> (style \<times> string) list" where
  "style_runs [] = []"
| "style_runs ((st, c) # xs) =
     (case style_runs xs of
        [] \<Rightarrow> [(st, [c])]
      | (st', cs) # rest \<Rightarrow>
          (if st' = st then (st, c # cs) # rest else (st, [c]) # (st', cs) # rest))"

definition tokens :: "string \<Rightarrow> int \<Rightarrow> style list \<Rightarrow> (style \<times> string) list" where
  "tokens d startPos styles = style_runs (zip styles (drop (nat startPos) d))"

section \<open>Example documents\<close>

definition key_added :: string where
  "key_added = ''[HKEY_CURRENT_USER'' @ [BSLASH] @ ''Software'' @ [BSLASH] @ ''Foo]''"

definition key_deleted :: string where
  "key_deleted = ''[-HKEY_CURRENT_USER'' @ [BSLASH] @ ''Software'' @ [BSLASH] @ ''Foo]''"

definition foo_bar :: string where
  "foo_bar = [DQUOTE] @ ''Foo'' @ [DQUOTE] @ ''='' @ [DQUOTE] @ ''bar'' @ [DQUOTE]"

definition guid_string :: string where
  "guid_string = [DQUOTE] @ ''a{01234567-89AB-CDEF-0123-456789ABCDEF}b'' @ [DQUOTE]"

definition fold_doc :: string where
  "fold_doc = ''[Key]'' @ [LF, DQUOTE] @ ''A'' @ [DQUOTE] @ ''=1'' @ [LF]
              @ ''[Key]'' @ [LF, DQUOTE] @ ''B'' @ [DQUOTE] @ ''=2'' @ [LF]"

definition fold_styles :: "style list" where
  "fold_styles = styleBuf (Lex fold_doc 0 (int (length fold_doc)) Default)"

definition hex_continued :: string where
  "hex_continued = ''@=hex:01,'' @ [BSLASH, LF] @ ''  02''"

definition open_string :: string where
  "open_string = [DQUOTE] @ ''ab'' @ [LF] @ ''cd''"

definition comment_doc :: string where
  "comment_doc = ''; c '' @ [BSLASH, LF] @ ''ab=1'' @ [LF] @ ''ab''"

definition nul_doc :: string where
  "nul_doc = [CHR ''a'', NUL, CHR ''b'']"

definition lone_backslash :: string where
  "lone_backslash = ''; c '' @ [BSLASH, LF, BSLASH, LF] @ ''ab''"

definition guid_after_escape :: string where
  "guid_after_escape =
     ''@='' @ [DQUOTE] @ ''CLSID'' @ [BSLASH, BSLASH]
     @ ''{01234567-89AB-CDEF-0123-456789ABCDEF}'' @ [DQUOTE]"


section \<open>The lookahead predicates and the line ahead\<close>

lemma SafeGetCharAt_drop:
  "0 \<le> p \<Longrightarrow> SafeGetCharAt d p dflt = (case drop (nat p) d of [] \<Rightarrow> dflt | c # _ \<Rightarrow> c)"
proof (cases "p < int (length d)")
  case True
  assume "0 \<le> p"
  with True have "nat p < length d" by simp
  then have "drop (nat p) d = d ! nat p # drop (Suc (nat p)) d"
    by (rule Cons_nth_drop_Suc [symmetric])
  then show ?thesis using True \<open>0 \<le> p\<close> by (simp add: SafeGetCharAt_def)
next
  case False
  then show ?thesis by (simp add: SafeGetCharAt_def)
qed

lemma drop_nat_succ: "0 \<le> p \<Longrightarrow> drop (nat (p + 1)) d = tl (drop (nat p) d)"
  by (simp add: nat_add_distrib drop_Suc tl_drop)

lemma AtEndOfLine_drop:
  assumes "0 \<le> p"
  shows "AtEndOfLine d p = (upto_eol (drop (nat p) d) = [])"
proof -
  have a: "SafeGetCharAt d p NUL = (case drop (nat p) d of [] \<Rightarrow> NUL | c # _ \<Rightarrow> c)"
    using assms by (rule SafeGetCharAt_drop)
  have b: "SafeGetCharAt d (p + 1) NUL = (case tl (drop (nat p) d) of [] \<Rightarrow> NUL | c # _ \<Rightarrow> c)"
    using assms SafeGetCharAt_drop [of "p + 1" d NUL] by (simp add: drop_nat_succ)
  show ?thesis
    unfolding AtEndOfLine_def a b
    by (cases "drop (nat p) d") (auto split: list.splits)
qed

lemma rest_of_line_Nil:
  "0 \<le> pos \<Longrightarrow> AtEndOfLine d (pos + 1) \<Longrightarrow> rest_of_line d pos = []"
  by (simp add: rest_of_line_def AtEndOfLine_drop)

lemma rest_of_line_Cons:
  assumes "0 \<le> pos" "\<not> AtEndOfLine d (pos + 1)"
  shows "rest_of_line d pos = SafeGetCharAt d (pos + 1) NUL # rest_of_line d (pos + 1)"
proof -
  have ne: "upto_eol (drop (nat (pos + 1)) d) \<noteq> []"
    using assms by (simp add: AtEndOfLine_drop)
  then obtain c cs where dr: "drop (nat (pos + 1)) d = c # cs"
    by (cases "drop (nat (pos + 1)) d") auto
  have c: "SafeGetCharAt d (pos + 1) NUL = c"
    using assms SafeGetCharAt_drop [of "pos + 1" d NUL] by (simp add: dr)
  have cs: "drop (nat (pos + 1 + 1)) d = cs"
    using assms drop_nat_succ [of "pos + 1" d] by (simp add: dr)
  from ne have "upto_eol (c # cs) = c # upto_eol cs"
    unfolding dr by (simp split: if_splits)
  then show ?thesis
    unfolding rest_of_line_def c cs dr by simp
qed

lemma IsNextNonWhitespace_spec:
  "0 \<le> pos \<Longrightarrow> \<not> isspacechar c \<Longrightarrow>
     IsNextNonWhitespace d pos c = (next_significant (rest_of_line d pos) = Some c)"
proof (induction d pos c rule: IsNextNonWhitespace.induct)
  case (1 d start c)
  show ?case
  proof (cases "AtEndOfLine d (start + 1)")
    case True
    then show ?thesis using 1
      by (simp add: IsNextNonWhitespace.simps [of d start] rest_of_line_Nil next_significant_def)
  next
    case False
    note rl = rest_of_line_Cons [OF "1.prems"(1) False]
    show ?thesis
    proof (cases "SafeGetCharAt d (start + 1) NUL = c")
      case True
      then show ?thesis using False "1.prems"
        by (simp add: IsNextNonWhitespace.simps [of d start] rl next_significant_def)
    next
      case neq: False
      show ?thesis
      proof (cases "isspacechar (SafeGetCharAt d (start + 1) NUL)")
        case True
        have "IsNextNonWhitespace d (start + 1) c =
                (next_significant (rest_of_line d (start + 1)) = Some c)"
          using "1.IH" [OF False refl refl neq] True "1.prems" by simp
        then show ?thesis using False neq True
          by (simp add: IsNextNonWhitespace.simps [of d start] rl next_significant_def)
      next
        case nsp: False
        then show ?thesis using False neq
          by (simp add: IsNextNonWhitespace.simps [of d start] rl next_significant_def)
      qed
    qed
  qed
qed




lemma LexStep_state:
  "state (LexStep d s) = state (LexDefault d (LexSwitch d (LexLineStart d s)))"
  by (simp add: LexStep_def ContextForwardSetState_def)

lemma LexDefault_bracket:
  "state s = Default \<Longrightarrow> ch s = CHR ''['' \<Longrightarrow>
     state (LexDefault d s) =
       (if IsNextNonWhitespace d (currentPos s) (CHR ''-'') then DeletedKey else AddedKey)"
  by (simp add: LexDefault_def Let_def setOperators_def)


lemma LexLineStart_continued:
  "atLineStart s \<Longrightarrow> IsPrevNonWhitespace d (currentPos s) BSLASH \<Longrightarrow>
     LexLineStart d s = s\<lparr>highlight := True\<rparr>"
  by (simp add: LexLineStart_def)


lemma CFSS_highlight [simp]: "highlight (ContextForwardSetState d s n) = highlight s"
  by (simp add: ContextForwardSetState_def ForwardSetState_def split: option.splits)



lemma rev_take_step:
  assumes "0 < p" "p \<le> int (length d)"
  shows "rev (take (nat p) d) = d ! nat (p - 1) # rev (take (nat (p - 1)) d)"
proof -
  have "nat p = Suc (nat (p - 1))" using assms by simp
  moreover have "nat (p - 1) < length d" using assms by simp
  ultimately show ?thesis by (simp add: take_Suc_conv_app_nth)
qed

lemma line_before_step:
  assumes "0 < p" "p \<le> int (length d)"
  shows "line_before d p =
     (if 1 < p \<and> \<not> (d ! nat (p - 2) = LF \<or> (d ! nat (p - 2) = CR \<and> d ! nat (p - 1) \<noteq> LF))
      then d ! nat (p - 1) # line_before d (p - 1)
      else [d ! nat (p - 1)])"
proof (cases "1 < p")
  case False
  then have "p = 1" using assms by simp
  then show ?thesis using assms
    by (cases d) (simp_all add: line_before_def)
next
  case True
  have a: "rev (take (nat p) d) = d ! nat (p - 1) # rev (take (nat (p - 1)) d)"
    using assms by (rule rev_take_step)
  have b: "rev (take (nat (p - 1)) d) = d ! nat (p - 1 - 1) # rev (take (nat (p - 1 - 1)) d)"
    using True assms by (intro rev_take_step) simp_all
  have c: "p - 1 - 1 = p - 2" by simp
  show ?thesis
    using True unfolding line_before_def a by (simp add: b c)
qed

lemma AtBeginOfLine_text:
  assumes "0 < p" "p \<le> int (length d)"
  shows "AtBeginOfLine d (p - 1) =
     (d ! nat (p - 1) = NUL
      \<or> (1 < p \<and> (d ! nat (p - 2) = LF \<or> (d ! nat (p - 2) = CR \<and> d ! nat (p - 1) \<noteq> LF))))"
proof -
  have c: "SafeGetCharAt d (p - 1) NUL = d ! nat (p - 1)"
    using assms by (simp add: SafeGetCharAt_def)
  have q: "SafeGetCharAt d (p - 1 - 1) NUL = (if 1 < p then d ! nat (p - 2) else NUL)"
    using assms by (simp add: SafeGetCharAt_def)
  show ?thesis
    unfolding AtBeginOfLine_def Let_def c q by auto
qed

lemma IsPrevNonWhitespace_nonpos: "p \<le> 0 \<Longrightarrow> \<not> IsPrevNonWhitespace d p c"
  using AtBeginOfLine_outside [of "p - 1" d] by (subst IsPrevNonWhitespace.simps) simp

lemma next_significant_Cons:
  "next_significant (x # xs) = (if isspacechar x then next_significant xs else Some x)"
  by (simp add: next_significant_def)

lemma line_before_nonempty: "0 < p \<Longrightarrow> p \<le> int (length d) \<Longrightarrow> line_before d p \<noteq> []"
  by (simp add: line_before_step)

lemma IsPrevNonWhitespace_reaches:
  "IsPrevNonWhitespace d pos c \<Longrightarrow> pos \<le> int (length d) \<Longrightarrow> \<not> isspacechar c \<Longrightarrow>
     next_significant (line_before d pos) = Some c"
proof (induction d pos c rule: IsPrevNonWhitespace.induct)
  case (1 d start c)
  have nb: "\<not> AtBeginOfLine d (start - 1)"
    using "1.prems"(1) by (subst (asm) IsPrevNonWhitespace.simps) (simp split: if_splits)
  then have pos: "0 < start" using AtBeginOfLine_inside [of d "start - 1"] by simp
  have c0: "SafeGetCharAt d (start - 1) NUL = d ! nat (start - 1)"
    using pos "1.prems" by (simp add: SafeGetCharAt_def)
  have tx: "d ! nat (start - 1) \<noteq> NUL"
    "\<not> (1 < start \<and> (d ! nat (start - 2) = LF
          \<or> (d ! nat (start - 2) = CR \<and> d ! nat (start - 1) \<noteq> LF)))"
    using nb AtBeginOfLine_text [OF pos "1.prems"(2)] by auto
  show ?case
  proof (cases "d ! nat (start - 1) = c")
    case True
    then show ?thesis using pos "1.prems" tx
      by (simp add: line_before_step next_significant_Cons next_significant_def)
  next
    case False
    have sp: "isspacechar (d ! nat (start - 1))" and rec: "IsPrevNonWhitespace d (start - 1) c"
      using "1.prems"(1) nb False c0
      by (subst (asm) IsPrevNonWhitespace.simps, simp add: Let_def split: if_splits)+
    have gt: "1 < start" using rec IsPrevNonWhitespace_nonpos [of "start - 1" d c] by force
    have ih: "next_significant (line_before d (start - 1)) = Some c"
      using "1.IH" [OF nb refl refl _ _ rec] False sp c0 "1.prems" by simp
    show ?thesis using pos "1.prems" tx gt sp ih
      by (simp add: line_before_step next_significant_Cons)
  qed
qed

lemma IsPrevNonWhitespace_reached:
  "next_significant (butlast (line_before d pos)) = Some c \<Longrightarrow> pos \<le> int (length d) \<Longrightarrow>
     \<not> isspacechar c \<Longrightarrow> c \<noteq> NUL \<Longrightarrow> IsPrevNonWhitespace d pos c"
proof (induction d pos c rule: IsPrevNonWhitespace.induct)
  case (1 d start c)
  have pos: "0 < start"
  proof (rule ccontr)
    assume "\<not> 0 < start"
    then have "line_before d start = []" by (simp add: line_before_def)
    then show False using "1.prems"(1) by (simp add: next_significant_def)
  qed
  let ?c0 = "d ! nat (start - 1)"
  have stepc: "1 < start \<and> \<not> (d ! nat (start - 2) = LF
          \<or> (d ! nat (start - 2) = CR \<and> ?c0 \<noteq> LF))"
  proof (rule ccontr)
    assume "\<not> ?thesis"
    then have "line_before d start = [?c0]"
      using pos "1.prems"(2) by (simp add: line_before_step)
    then show False using "1.prems"(1) by (simp add: next_significant_def)
  qed
  then have lb: "line_before d start = ?c0 # line_before d (start - 1)"
    using pos "1.prems"(2) by (simp add: line_before_step)
  have ne: "line_before d (start - 1) \<noteq> []"
    using stepc "1.prems"(2) by (intro line_before_nonempty) simp_all
  have ns: "next_significant (?c0 # butlast (line_before d (start - 1))) = Some c"
    using "1.prems"(1) ne unfolding lb by simp
  have nn: "?c0 \<noteq> NUL"
  proof
    assume z: "?c0 = NUL"
    have "\<not> isspacechar NUL" by (simp add: isspacechar_def)
    then show False using ns "1.prems"(4) unfolding z by (simp add: next_significant_Cons)
  qed
  have nb: "\<not> AtBeginOfLine d (start - 1)"
    using AtBeginOfLine_text [OF pos "1.prems"(2)] nn stepc by simp
  have c0: "SafeGetCharAt d (start - 1) NUL = ?c0"
    using pos "1.prems" by (simp add: SafeGetCharAt_def)
  show ?case
  proof (cases "?c0 = c")
    case True
    then show ?thesis using nb c0
      by (subst IsPrevNonWhitespace.simps) simp
  next
    case False
    then have sp: "isspacechar ?c0"
      and rest: "next_significant (butlast (line_before d (start - 1))) = Some c"
      using ns by (simp_all add: next_significant_Cons split: if_splits)
    have "IsPrevNonWhitespace d (start - 1) c"
      using "1.IH" [OF nb refl refl _ _ rest] False sp c0 "1.prems" by simp
    then show ?thesis using nb c0 False sp
      by (subst IsPrevNonWhitespace.simps) simp
  qed
qed



section \<open>The GUID check and the GUID shape\<close>

lemma AtGUID_inner_run:
  "count = i + int n \<Longrightarrow>
   AtGUID_inner d start offset i count =
     (if \<forall>j. offset \<le> j \<and> j < offset + int n
            \<longrightarrow> hex_or_hyphen (SafeGetCharAt d (start + j) (CHR '' ''))
      then Some (offset + int n) else None)"
proof (induction n arbitrary: offset i)
  case 0
  then show ?case by (simp add: AtGUID_inner.simps [of d start offset i])
next
  case (Suc n)
  let ?Q = "\<lambda>j. hex_or_hyphen (SafeGetCharAt d (start + j) (CHR '' ''))"
  have c: "count = (i + 1) + int n" using Suc.prems by simp
  have ih: "AtGUID_inner d start (offset + 1) (i + 1) count =
     (if \<forall>j. offset + 1 \<le> j \<and> j < offset + 1 + int n \<longrightarrow> ?Q j
      then Some (offset + 1 + int n) else None)"
    by (rule Suc.IH [OF c])
  have lt: "i < count" using Suc.prems by simp
  have split: "(\<forall>j. offset \<le> j \<and> j < offset + int (Suc n) \<longrightarrow> ?Q j) =
          (?Q offset \<and> (\<forall>j. offset + 1 \<le> j \<and> j < offset + 1 + int n \<longrightarrow> ?Q j))"
  proof (intro iffI conjI allI impI)
    fix j
    assume a: "?Q offset \<and> (\<forall>j. offset + 1 \<le> j \<and> j < offset + 1 + int n \<longrightarrow> ?Q j)"
      and b: "offset \<le> j \<and> j < offset + int (Suc n)"
    show "?Q j"
    proof (cases "j = offset")
      case True then show ?thesis using a by simp
    next
      case False
      then have "offset + 1 \<le> j \<and> j < offset + 1 + int n" using b by simp
      then show ?thesis using a by blast
    qed
  qed simp_all
  have step: "AtGUID_inner d start offset i count =
      (if ?Q offset then AtGUID_inner d start (offset + 1) (i + 1) count else None)"
    by (subst AtGUID_inner.simps) (simp add: lt Let_def hex_or_hyphen_def)
  show ?case
    unfolding step ih split by simp
qed

lemma AtGUID_flat:
  "AtGUID d start =
     ((\<forall>j. 1 \<le> j \<and> j < 37 \<longrightarrow> hex_or_hyphen (SafeGetCharAt d (start + j) (CHR '' '')))
      \<and> SafeGetCharAt d (start + 37) (CHR '' '') = CHR ''}'')"
proof -
  let ?Q = "\<lambda>j. hex_or_hyphen (SafeGetCharAt d (start + j) (CHR '' ''))"
  let ?G = "\<lambda>a b. \<forall>j. a \<le> j \<and> j < b \<longrightarrow> ?Q j"
  have r8: "AtGUID_inner d start 1 0 8 = (if ?G 1 9 then Some 9 else None)"
    using AtGUID_inner_run [of 8 0 8 d start 1] by simp
  have r5: "AtGUID_inner d start off 0 5 = (if ?G off (off + 5) then Some (off + 5) else None)"
    for off using AtGUID_inner_run [of 5 0 5 d start off] by simp
  have r13: "AtGUID_inner d start off 0 13 = (if ?G off (off + 13) then Some (off + 13) else None)"
    for off using AtGUID_inner_run [of 13 0 13 d start off] by simp
  let ?E = "SafeGetCharAt d (start + 37) (CHR '' '') = CHR ''}''"
  have o5: "AtGUID_outer d start 37 5 5 = ?E"
    by (subst AtGUID_outer.simps) simp
  have o4: "AtGUID_outer d start 24 4 13 = (?G 24 37 \<and> ?E)"
    by (subst AtGUID_outer.simps) (simp add: r13 o5)
  have o3: "AtGUID_outer d start 19 3 5 = (?G 19 24 \<and> ?G 24 37 \<and> ?E)"
    by (subst AtGUID_outer.simps) (simp add: r5 o4)
  have o2: "AtGUID_outer d start 14 2 5 = (?G 14 19 \<and> ?G 19 24 \<and> ?G 24 37 \<and> ?E)"
    by (subst AtGUID_outer.simps) (simp add: r5 o3)
  have o1: "AtGUID_outer d start 9 1 5 = (?G 9 14 \<and> ?G 14 19 \<and> ?G 19 24 \<and> ?G 24 37 \<and> ?E)"
    by (subst AtGUID_outer.simps) (simp add: r5 o2)
  have o0: "AtGUID d start = (?G 1 9 \<and> ?G 9 14 \<and> ?G 14 19 \<and> ?G 19 24 \<and> ?G 24 37 \<and> ?E)"
    unfolding AtGUID_def by (subst AtGUID_outer.simps) (simp add: r8 o1)
  have join: "?G a c = (?G a b \<and> ?G b c)" if "a \<le> b" "b \<le> c" for a b c :: int
    using that by (auto simp: not_less) (meson not_less order_trans less_le_trans)+
  have "?G 1 37 = (?G 1 9 \<and> ?G 9 14 \<and> ?G 14 19 \<and> ?G 19 24 \<and> ?G 24 37)"
    using join [of 1 9 37] join [of 9 14 37] join [of 14 19 37] join [of 19 24 37]
    by simp
  then show ?thesis unfolding o0 by simp
qed

lemma guid_shape_flat:
  assumes "0 \<le> start"
  shows "guid_shape (drop (nat (start + 1)) d) =
     ((\<forall>j. 1 \<le> j \<and> j < 37 \<longrightarrow> hex_or_hyphen (SafeGetCharAt d (start + j) (CHR '' '')))
      \<and> SafeGetCharAt d (start + 37) (CHR '' '') = CHR ''}'')"
proof -
  let ?cs = "drop (nat (start + 1)) d"
  have blank: "\<not> hex_or_hyphen (CHR '' '')" by (simp add: hex_or_hyphen_def isxdigit_def)
  have nth: "?cs ! k = SafeGetCharAt d (start + 1 + int k) (CHR '' '')" if "k < length ?cs" for k
  proof -
    have "nat (start + 1 + int k) = k + nat (start + 1)" using assms by simp
    then have "drop (nat (start + 1 + int k)) d = drop k ?cs" by simp
    moreover have "drop k ?cs = ?cs ! k # drop (Suc k) ?cs"
      using that by (rule Cons_nth_drop_Suc [symmetric])
    moreover have "0 \<le> start + 1 + int k" using assms by simp
    ultimately show ?thesis
      using SafeGetCharAt_drop [of "start + 1 + int k" d "CHR '' ''"] by simp
  qed
  show ?thesis
  proof
    assume g: "guid_shape ?cs"
    then have len: "37 \<le> length ?cs" by (simp add: guid_shape_def)
    have "hex_or_hyphen (SafeGetCharAt d (start + j) (CHR '' ''))" if "1 \<le> j \<and> j < 37" for j
    proof -
      have k: "nat (j - 1) < 36" using that by arith
      then have "?cs ! nat (j - 1) \<in> set (take 36 ?cs)"
      proof -
        have "take 36 ?cs ! nat (j - 1) = ?cs ! nat (j - 1)" using k by simp
        moreover have "nat (j - 1) < length (take 36 ?cs)" using k len by simp
        ultimately show ?thesis by (metis nth_mem)
      qed
      then have "hex_or_hyphen (?cs ! nat (j - 1))" using g by (simp add: guid_shape_def)
      moreover have "?cs ! nat (j - 1) = SafeGetCharAt d (start + 1 + int (nat (j - 1))) (CHR '' '')"
        using k len by (intro nth) simp
      moreover have "start + 1 + int (nat (j - 1)) = start + j" using that by arith
      ultimately show ?thesis by simp
    qed
    moreover have "SafeGetCharAt d (start + 37) (CHR '' '') = CHR ''}''"
      using g nth [of 36] len by (simp add: guid_shape_def add.commute)
    ultimately show "(\<forall>j. 1 \<le> j \<and> j < 37 \<longrightarrow> hex_or_hyphen (SafeGetCharAt d (start + j) (CHR '' '')))
      \<and> SafeGetCharAt d (start + 37) (CHR '' '') = CHR ''}''" by blast
  next
    assume f: "(\<forall>j. 1 \<le> j \<and> j < 37 \<longrightarrow> hex_or_hyphen (SafeGetCharAt d (start + j) (CHR '' '')))
      \<and> SafeGetCharAt d (start + 37) (CHR '' '') = CHR ''}''"
    then have "start + 37 < int (length d)"
      by (auto simp: SafeGetCharAt_def split: if_splits)
    then have len: "37 \<le> length ?cs" using assms by simp
    have "hex_or_hyphen c" if "c \<in> set (take 36 ?cs)" for c
    proof -
      from that obtain k where k: "k < 36" "c = ?cs ! k"
        using len by (auto simp: in_set_conv_nth)
      then have "c = SafeGetCharAt d (start + 1 + int k) (CHR '' '')"
        using nth [of k] len by simp
      moreover have "hex_or_hyphen (SafeGetCharAt d (start + (1 + int k)) (CHR '' ''))"
        using f k by simp
      ultimately show ?thesis by (simp add: add.assoc)
    qed
    moreover have "?cs ! 36 = CHR ''}''"
      using f nth [of 36] len by (simp add: add.commute)
    ultimately show "guid_shape ?cs" using len by (simp add: guid_shape_def)
  qed
qed

lemma AtGUID_spec: "0 \<le> start \<Longrightarrow> AtGUID d start = guid_shape (drop (nat (start + 1)) d)"
  by (simp add: AtGUID_flat guid_shape_flat)


section \<open>What the cursor keeps throughout a scan\<close>

lemma cursor_ok_ColourTo:
  assumes "cursor_ok d sp e c"
  shows "cursor_ok d sp e (ColourTo c (colourPos c) a)"
proof (cases "currentPos c > lengthDocument c")
  case True
  with assms have cp: "currentPos c = lengthDocument c + 1"
    by (simp add: cursor_ok_def)
  show ?thesis
    using assms True cp
    by (auto simp: cursor_ok_def ColourTo_def colourPos_def)
next
  case False
  show ?thesis
    using assms False
    by (auto simp: cursor_ok_def ColourTo_def colourPos_def)
qed

lemma cursor_ok_SetState [simp]:
  "cursor_ok d sp e c \<Longrightarrow> cursor_ok d sp e (SetState c st)"
  using cursor_ok_ColourTo [of d sp e c "state c"]
  by (simp add: SetState_def cursor_ok_def)

lemma cursor_ok_Forward [simp]:
  "cursor_ok d sp e c \<Longrightarrow> cursor_ok d sp e (Forward d c)"
  by (auto simp: cursor_ok_def Forward_def GetNextChar_def Let_def)

lemma cursor_ok_locals [simp]:
  "cursor_ok d sp e (s\<lparr>beforeGUID := x\<rparr>) = cursor_ok d sp e s"
  "cursor_ok d sp e (s\<lparr>beforeEscape := x\<rparr>) = cursor_ok d sp e s"
  "cursor_ok d sp e (s\<lparr>highlight := b\<rparr>) = cursor_ok d sp e s"
  "cursor_ok d sp e (s\<lparr>afterEqualSign := b\<rparr>) = cursor_ok d sp e s"
  "cursor_ok d sp e (s\<lparr>stateLastNonDefault := x\<rparr>) = cursor_ok d sp e s"
  by (simp_all add: cursor_ok_def)

lemma cursor_ok_CFSS [simp]:
  "cursor_ok d sp e s \<Longrightarrow> cursor_ok d sp e (ContextForwardSetState d s n)"
  by (simp add: ContextForwardSetState_def ForwardSetState_def split: option.splits)

lemma cursor_ok_LexLineStart:
  "cursor_ok d sp e s \<Longrightarrow> cursor_ok d sp e (LexLineStart d s)"
  by (simp add: LexLineStart_def Let_def)

lemma cursor_ok_LexStringCase:
  "cursor_ok d sp e s \<Longrightarrow> cursor_ok d sp e (LexStringCase d s)"
  by (simp add: LexStringCase_def Let_def)

lemma cursor_ok_LexKeyPathCase:
  "cursor_ok d sp e s \<Longrightarrow> cursor_ok d sp e (LexKeyPathCase d s)"
  by (simp add: LexKeyPathCase_def Let_def)

lemma cursor_ok_LexEscapedCase:
  "cursor_ok d sp e s \<Longrightarrow> cursor_ok d sp e (LexEscapedCase d s)"
  by (simp add: LexEscapedCase_def Let_def)

lemma cursor_ok_LexGuidCase:
  "cursor_ok d sp e s \<Longrightarrow> cursor_ok d sp e (LexGuidCase d s)"
  by (simp add: LexGuidCase_def Let_def)

lemma cursor_ok_LexSwitch:
  "cursor_ok d sp e s \<Longrightarrow> cursor_ok d sp e (LexSwitch d s)"
  by (cases "state s")
     (simp_all add: LexSwitch_def Let_def cursor_ok_LexStringCase cursor_ok_LexKeyPathCase
        cursor_ok_LexEscapedCase cursor_ok_LexGuidCase)

lemma cursor_ok_LexDefault:
  "cursor_ok d sp e s \<Longrightarrow> cursor_ok d sp e (LexDefault d s)"
  by (simp add: LexDefault_def Let_def)

lemma cursor_ok_LexStep:
  "cursor_ok d sp e s \<Longrightarrow> cursor_ok d sp e (LexStep d s)"
  by (simp add: LexStep_def cursor_ok_LexLineStart cursor_ok_LexSwitch cursor_ok_LexDefault)

lemma Lex_loop_stop: "\<not> (More s \<and> ch s \<noteq> NUL) \<Longrightarrow> Lex_loop d s = s"
  by (subst Lex_loop.simps) auto

lemma Lex_loop_continue:
  "More s \<and> ch s \<noteq> NUL \<Longrightarrow> Lex_loop d s = Lex_loop d (LexStep d s)"
  by (subst Lex_loop.simps) simp

lemma cursor_ok_Lex_loop:
  "cursor_ok d sp e s \<Longrightarrow> cursor_ok d sp e (Lex_loop d s)"
proof (induction d s rule: Lex_loop.induct)
  case (1 d s)
  show ?case
  proof (cases "More s \<and> ch s \<noteq> NUL")
    case True
    from "1.IH" [OF True cursor_ok_LexStep [OF "1.prems"]] show ?thesis
      by (simp add: Lex_loop_continue [OF True])
  next
    case False
    then show ?thesis using "1.prems" by (simp add: Lex_loop_stop)
  qed
qed

lemma Lex_loop_stops: "\<not> (More (Lex_loop d s) \<and> ch (Lex_loop d s) \<noteq> NUL)"
proof (induction d s rule: Lex_loop.induct)
  case (1 d s)
  show ?case
  proof (cases "More s \<and> ch s \<noteq> NUL")
    case True
    from "1.IH" [OF True] show ?thesis
      by (simp add: Lex_loop_continue [OF True])
  next
    case False
    then show ?thesis by (simp add: Lex_loop_stop)
  qed
qed

lemma cursor_ok_Lex_init:
  assumes "0 \<le> startPos" "0 \<le> len" "startPos + len \<le> int (length d)"
  shows "cursor_ok d startPos
           (if startPos + len = int (length d) then startPos + len + 1 else startPos + len)
           (Lex_init d startPos len initStyle)"
  using assms
  by (simp add: cursor_ok_def Lex_init_def StyleContext_init_def GetNextChar_def Let_def
        StyleContext.defs LexState.defs)

lemma settled_ColourTo:
  assumes "settled d sp e p st c"
  shows "cursor_ok d sp e (ColourTo c (colourPos c) (state c))
     \<and> p < startSeg (ColourTo c (colourPos c) (state c))
     \<and> styleBuf (ColourTo c (colourPos c) (state c)) ! nat (p - sp) = st"
proof -
  have ok: "cursor_ok d sp e c" using assms by (simp add: settled_def)
  have ok': "cursor_ok d sp e (ColourTo c (colourPos c) (state c))"
    using ok by (rule cursor_ok_ColourTo)
  have b: "sp \<le> p" "p < currentPos c" "p < lengthDocument c"
    using assms by (simp_all add: settled_def)
  have le: "p \<le> colourPos c"
    using b ok by (simp add: colourPos_def cursor_ok_def)
  have len: "int (length (styleBuf c)) = startSeg c - sp" "sp \<le> startSeg c"
    using ok by (simp_all add: cursor_ok_def)
  show ?thesis
  proof (cases "p < startSeg c")
    case True
    then have old: "styleBuf c ! nat (p - sp) = st" using assms by (simp add: settled_def)
    have idx: "nat (p - sp) < length (styleBuf c)" using True b len by linarith
    show ?thesis
      using ok' True old idx le
      by (auto simp: ColourTo_def nth_append)
  next
    case False
    then have stt: "state c = st" using assms by (simp add: settled_def)
    have ge: "startSeg c \<le> colourPos c" using False le by simp
    have i1: "\<not> nat (p - sp) < length (styleBuf c)" using False b len by linarith
    have i2: "nat (p - sp) - length (styleBuf c) < nat (colourPos c - startSeg c + 1)"
      using False b len le by linarith
    show ?thesis
      using ok' False stt ge le i1 i2
      by (auto simp: ColourTo_def nth_append)
  qed
qed

lemma settled_SetState [simp]:
  "settled d sp e p st c \<Longrightarrow> settled d sp e p st (SetState c st')"
  using settled_ColourTo [of d sp e p st c]
  by (simp add: settled_def SetState_def cursor_ok_def)

lemma settled_Forward [simp]:
  "settled d sp e p st c \<Longrightarrow> settled d sp e p st (Forward d c)"
  using cursor_ok_Forward [of d sp e c]
  by (simp add: settled_def)

lemma settled_locals [simp]:
  "settled d sp e p st (s\<lparr>beforeGUID := x\<rparr>) = settled d sp e p st s"
  "settled d sp e p st (s\<lparr>beforeEscape := x\<rparr>) = settled d sp e p st s"
  "settled d sp e p st (s\<lparr>highlight := b\<rparr>) = settled d sp e p st s"
  "settled d sp e p st (s\<lparr>afterEqualSign := b\<rparr>) = settled d sp e p st s"
  "settled d sp e p st (s\<lparr>stateLastNonDefault := x\<rparr>) = settled d sp e p st s"
  by (simp_all add: settled_def)

lemma settled_CFSS [simp]:
  "settled d sp e p st s \<Longrightarrow> settled d sp e p st (ContextForwardSetState d s n)"
  by (simp add: ContextForwardSetState_def ForwardSetState_def split: option.splits)

lemma settled_LexLineStart:
  "settled d sp e p st s \<Longrightarrow> settled d sp e p st (LexLineStart d s)"
  by (simp add: LexLineStart_def Let_def)

lemma settled_LexStringCase:
  "settled d sp e p st s \<Longrightarrow> settled d sp e p st (LexStringCase d s)"
  by (simp add: LexStringCase_def Let_def)

lemma settled_LexKeyPathCase:
  "settled d sp e p st s \<Longrightarrow> settled d sp e p st (LexKeyPathCase d s)"
  by (simp add: LexKeyPathCase_def Let_def)

lemma settled_LexEscapedCase:
  "settled d sp e p st s \<Longrightarrow> settled d sp e p st (LexEscapedCase d s)"
  by (simp add: LexEscapedCase_def Let_def)

lemma settled_LexGuidCase:
  "settled d sp e p st s \<Longrightarrow> settled d sp e p st (LexGuidCase d s)"
  by (simp add: LexGuidCase_def Let_def)

lemma settled_LexSwitch:
  "settled d sp e p st s \<Longrightarrow> settled d sp e p st (LexSwitch d s)"
  by (cases "state s")
     (simp_all add: LexSwitch_def Let_def settled_LexStringCase settled_LexKeyPathCase
        settled_LexEscapedCase settled_LexGuidCase)

lemma settled_LexDefault:
  "settled d sp e p st s \<Longrightarrow> settled d sp e p st (LexDefault d s)"
  by (simp add: LexDefault_def Let_def)

lemma settled_LexStep:
  "settled d sp e p st s \<Longrightarrow> settled d sp e p st (LexStep d s)"
  by (simp add: LexStep_def settled_LexLineStart settled_LexSwitch settled_LexDefault)

lemma settled_Lex_loop:
  "settled d sp e p st s \<Longrightarrow> settled d sp e p st (Lex_loop d s)"
proof (induction d s rule: Lex_loop.induct)
  case (1 d s)
  show ?case
  proof (cases "More s \<and> ch s \<noteq> NUL")
    case True
    from "1.IH" [OF True settled_LexStep [OF "1.prems"]] show ?thesis
      by (simp add: Lex_loop_continue [OF True])
  next
    case False
    then show ?thesis using "1.prems" by (simp add: Lex_loop_stop)
  qed
qed

lemma settled_final:
  "settled d sp e p st s \<Longrightarrow> styleBuf (Complete (Lex_loop d s)) ! nat (p - sp) = st"
  using settled_ColourTo [OF settled_Lex_loop, of d sp e p st s]
  by (simp add: Complete_def)

lemma Lex_loop_Lex_after: "Lex_loop d (Lex_after n d s) = Lex_loop d s"
proof (induction n arbitrary: s)
  case 0
  show ?case by simp
next
  case (Suc n)
  show ?case
  proof (cases "More s \<and> ch s \<noteq> NUL")
    case True
    then show ?thesis using Suc.IH [of "LexStep d s"]
      by (simp add: Lex_loop_continue [OF True])
  next
    case False
    then show ?thesis by auto
  qed
qed

lemma cursor_ok_Lex_after:
  "cursor_ok d sp e s \<Longrightarrow> cursor_ok d sp e (Lex_after n d s)"
  by (induction n arbitrary: s) (simp_all add: cursor_ok_LexStep)

lemma pending_after_step:
  assumes "cursor_ok d sp e s" "More (LexStep d s)"
  shows "startSeg (LexStep d s) < currentPos (LexStep d s)"
proof -
  let ?p = "LexDefault d (LexSwitch d (LexLineStart d s))"
  have ok: "cursor_ok d sp e ?p"
    using assms(1) by (intro cursor_ok_LexDefault cursor_ok_LexSwitch cursor_ok_LexLineStart)
  then have "startSeg ?p \<le> currentPos ?p" by (simp add: cursor_ok_def)
  then show ?thesis using assms(2)
    by (auto simp: LexStep_def ContextForwardSetState_def More_def split: if_splits)
qed

lemma pending_Lex_after:
  assumes "cursor_ok d sp e s" "currentPos s = sp"
    "sp < currentPos (Lex_after n d s)" "More (Lex_after n d s)"
  shows "startSeg (Lex_after n d s) < currentPos (Lex_after n d s)"
proof -
  have "cursor_ok d sp e s \<Longrightarrow>
        (sp < currentPos s \<and> More s \<longrightarrow> startSeg s < currentPos s) \<Longrightarrow>
        (sp < currentPos (Lex_after n d s) \<and> More (Lex_after n d s)
           \<longrightarrow> startSeg (Lex_after n d s) < currentPos (Lex_after n d s))" for s
  proof (induction n arbitrary: s)
    case 0
    then show ?case by simp
  next
    case (Suc n)
    show ?case
    proof (cases "More s \<and> ch s \<noteq> NUL")
      case True
      have "cursor_ok d sp e (LexStep d s)" using Suc.prems(1) by (rule cursor_ok_LexStep)
      moreover have "sp < currentPos (LexStep d s) \<and> More (LexStep d s)
                     \<longrightarrow> startSeg (LexStep d s) < currentPos (LexStep d s)"
        using pending_after_step [OF Suc.prems(1)] by blast
      ultimately show ?thesis using Suc.IH [of "LexStep d s"] True by simp
    next
      case False
      then show ?thesis using Suc.prems by auto
    qed
  qed
  then show ?thesis using assms by simp
qed



section \<open>The start of a line\<close>

text \<open>
  C1, as stated: at the start of a line that continues the previous one (a trailing
  backslash is reachable by the backward whitespace-skip) the line starts in the same
  style as the trailing style of the prior line, not Default. This fails: in the
  continued hexadecimal value of the example the second line is a continuation, the
  prior line ends in the style Operator (its line feed, position 10), and the first
  character of the second line (position 11) is styled Default, because the Operator
  state lasts for one character only.
\<close>
theorem line_start_reset_counterexample:
  "atLineStart (Lex_after 11 hex_continued (Lex_init hex_continued 0 15 Default))
   \<and> currentPos (Lex_after 11 hex_continued (Lex_init hex_continued 0 15 Default)) = 11
   \<and> next_significant (line_before hex_continued 11) = Some BSLASH
   \<and> styleBuf (Lex hex_continued 0 15 Default) ! 10 = Operator
   \<and> styleBuf (Lex hex_continued 0 15 Default) ! 11 = Default"
  by code_simp

text \<open>
  C1, amended: at the start of every line that the loop of Lex reaches, the state of the
  tokenizer is the style that the last character of the prior line receives. If no
  trailing backslash of the previous line is reachable by the backward whitespace-skip,
  the check at the start of the line resets the state to Default and clears the
  remembered last non-default style. If a backslash is reached by the skip before the
  first character of the previous line, the check keeps the state and the remembered
  style, so the pass over the first character of the line begins in the trailing style of
  the prior line; which style that character then receives is decided by the transition
  of that state. A backslash that is the first character of the previous line is left
  out of this statement.
\<close>
theorem line_start_state:
  "0 \<le> sp \<and> 0 \<le> len \<and> sp + len \<le> int (length d)
     \<and> s = Lex_after n d (Lex_init d sp len init)
     \<and> atLineStart s \<and> More s \<and> ch s \<noteq> NUL \<longrightarrow>
   (sp < currentPos s \<longrightarrow>
      styleBuf (Lex d sp len init) ! nat (currentPos s - 1 - sp) = state s)
   \<and> (next_significant (line_before d (currentPos s)) \<noteq> Some BSLASH \<longrightarrow>
        state (LexLineStart d s) = Default
        \<and> stateLastNonDefault (LexLineStart d s) = Default)
   \<and> (next_significant (butlast (line_before d (currentPos s))) = Some BSLASH \<longrightarrow>
        state (LexLineStart d s) = state s
        \<and> stateLastNonDefault (LexLineStart d s) = stateLastNonDefault s)"
proof (intro impI)
  assume a: "0 \<le> sp \<and> 0 \<le> len \<and> sp + len \<le> int (length d)
     \<and> s = Lex_after n d (Lex_init d sp len init)
     \<and> atLineStart s \<and> More s \<and> ch s \<noteq> NUL"
  let ?e = "if sp + len = int (length d) then sp + len + 1 else sp + len"
  let ?i = "Lex_init d sp len init"
  have span: "0 \<le> sp" "0 \<le> len" "sp + len \<le> int (length d)" using a by blast+
  have ok0: "cursor_ok d sp ?e ?i"
    using span by (rule cursor_ok_Lex_init)
  have s: "s = Lex_after n d ?i" using a by blast
  have ok: "cursor_ok d sp ?e s"
    unfolding s using ok0 by (rule cursor_ok_Lex_after)
  have als: "atLineStart s" and ms: "More s" using a by blast+
  have more: "currentPos s < endPos s" using ms by (simp add: More_def)
  have le: "currentPos s \<le> int (length d)"
    using ok more by (simp add: cursor_ok_def)
  have bs: "\<not> isspacechar BSLASH" "BSLASH \<noteq> NUL" by (simp_all add: isspacechar_def)
  have link: "styleBuf (Lex d sp len init) ! nat (currentPos s - 1 - sp) = state s"
    if gt: "sp < currentPos s"
  proof -
    have i0: "currentPos ?i = sp"
      by (simp add: Lex_init_def StyleContext_init_def GetNextChar_def Let_def
            StyleContext.defs LexState.defs)
    have pend: "startSeg s < currentPos s"
      using pending_Lex_after [OF ok0 i0, of n] gt ms unfolding s by blast
    have "settled d sp ?e (currentPos s - 1) (state s) s"
      using ok gt pend le by (simp add: settled_def cursor_ok_def)
    then have "styleBuf (Complete (Lex_loop d s)) ! nat (currentPos s - 1 - sp) = state s"
      by (rule settled_final)
    moreover have "Lex_loop d s = Lex_loop d ?i"
      unfolding s by (rule Lex_loop_Lex_after)
    ultimately show ?thesis by (simp add: Lex_def)
  qed
  have reset: "state (LexLineStart d s) = Default
        \<and> stateLastNonDefault (LexLineStart d s) = Default"
    if no: "next_significant (line_before d (currentPos s)) \<noteq> Some BSLASH"
  proof -
    have "\<not> IsPrevNonWhitespace d (currentPos s) BSLASH"
      using IsPrevNonWhitespace_reaches [OF _ le bs(1)] no by blast
    then show ?thesis using als by (simp add: LexLineStart_def Let_def)
  qed
  have kept: "state (LexLineStart d s) = state s
        \<and> stateLastNonDefault (LexLineStart d s) = stateLastNonDefault s"
    if yes: "next_significant (butlast (line_before d (currentPos s))) = Some BSLASH"
  proof -
    have "IsPrevNonWhitespace d (currentPos s) BSLASH"
      using yes le bs by (rule IsPrevNonWhitespace_reached)
    then show ?thesis using als by (simp add: LexLineStart_continued)
  qed
  show "(sp < currentPos s \<longrightarrow>
      styleBuf (Lex d sp len init) ! nat (currentPos s - 1 - sp) = state s)
   \<and> (next_significant (line_before d (currentPos s)) \<noteq> Some BSLASH \<longrightarrow>
        state (LexLineStart d s) = Default
        \<and> stateLastNonDefault (LexLineStart d s) = Default)
   \<and> (next_significant (butlast (line_before d (currentPos s))) = Some BSLASH \<longrightarrow>
        state (LexLineStart d s) = state s
        \<and> stateLastNonDefault (LexLineStart d s) = stateLastNonDefault s)"
    using link reset kept by blast
qed

theorem line_start_state_witness:
  "atLineStart (Lex_after 11 hex_continued (Lex_init hex_continued 0 15 Default))
   \<and> More (Lex_after 11 hex_continued (Lex_init hex_continued 0 15 Default))
   \<and> ch (Lex_after 11 hex_continued (Lex_init hex_continued 0 15 Default)) = CHR '' ''
   \<and> currentPos (Lex_after 11 hex_continued (Lex_init hex_continued 0 15 Default)) = 11
   \<and> next_significant (butlast (line_before hex_continued 11)) = Some BSLASH
   \<and> styleBuf (Lex hex_continued 0 15 Default) ! 10 = Operator
   \<and> state (Lex_after 11 hex_continued (Lex_init hex_continued 0 15 Default)) = Operator
   \<and> state (LexLineStart hex_continued
        (Lex_after 11 hex_continued (Lex_init hex_continued 0 15 Default))) = Operator
   \<and> atLineStart (Lex_after 4 open_string (Lex_init open_string 0 6 Default))
   \<and> More (Lex_after 4 open_string (Lex_init open_string 0 6 Default))
   \<and> ch (Lex_after 4 open_string (Lex_init open_string 0 6 Default)) = CHR ''c''
   \<and> currentPos (Lex_after 4 open_string (Lex_init open_string 0 6 Default)) = 4
   \<and> next_significant (line_before open_string 4) = Some (CHR ''b'')
   \<and> styleBuf (Lex open_string 0 6 Default) ! 3 = String
   \<and> state (Lex_after 4 open_string (Lex_init open_string 0 6 Default)) = String
   \<and> state (LexLineStart open_string
        (Lex_after 4 open_string (Lex_init open_string 0 6 Default))) = Default"
proof -
  let ?h = "Lex_after 11 hex_continued (Lex_init hex_continued 0 15 Default)"
  let ?o = "Lex_after 4 open_string (Lex_init open_string 0 6 Default)"
  have h: "atLineStart ?h" "More ?h" "ch ?h = CHR '' ''" "currentPos ?h = 11"
    "next_significant (butlast (line_before hex_continued 11)) = Some BSLASH"
    "state ?h = Operator" "(0::int) + 15 \<le> int (length hex_continued)"
    by code_simp+
  have o: "atLineStart ?o" "More ?o" "ch ?o = CHR ''c''" "currentPos ?o = 4"
    "next_significant (line_before open_string 4) = Some (CHR ''b'')"
    "state ?o = String" "(0::int) + 6 \<le> int (length open_string)"
    by code_simp+
  have 1: "styleBuf (Lex hex_continued 0 15 Default) ! 10 = Operator
           \<and> state (LexLineStart hex_continued ?h) = Operator"
    using line_start_state [of 0 15 hex_continued ?h 11 Default] h by simp
  have 2: "styleBuf (Lex open_string 0 6 Default) ! 3 = String
           \<and> state (LexLineStart open_string ?o) = Default"
    using line_start_state [of 0 6 open_string ?o 4 Default] o by simp
  show ?thesis using h o 1 2 by simp
qed


section \<open>Every position of the span gets one style\<close>

lemma no_NUL_SafeGetCharAt:
  assumes "no_NUL_in_span d startPos len" "0 \<le> startPos" "startPos \<le> p" "p < startPos + len"
    "startPos + len \<le> int (length d)"
  shows "SafeGetCharAt d p NUL \<noteq> NUL"
proof -
  let ?span = "take (nat len) (drop (nat startPos) d)"
  have k: "nat (p - startPos) < length ?span" using assms by simp
  have "?span ! nat (p - startPos) = d ! (nat startPos + nat (p - startPos))"
    using assms by simp
  moreover have "nat startPos + nat (p - startPos) = nat p" using assms by simp
  ultimately have "d ! nat p \<in> set ?span" using k by (metis nth_mem)
  then have "d ! nat p \<noteq> NUL" using assms(1) by (auto simp: no_NUL_in_span_def)
  then show ?thesis using assms by (simp add: SafeGetCharAt_def)
qed

lemma Lex_covers_span:
  assumes "0 \<le> startPos" "0 \<le> len" "startPos + len \<le> int (length d)"
    "no_NUL_in_span d startPos len"
  shows "startSeg (Lex d startPos len initStyle) = startPos + len
         \<and> int (length (styleBuf (Lex d startPos len initStyle))) = len"
proof -
  let ?e = "if startPos + len = int (length d) then startPos + len + 1 else startPos + len"
  let ?s = "Lex_loop d (Lex_init d startPos len initStyle)"
  have ok: "cursor_ok d startPos ?e ?s"
    by (intro cursor_ok_Lex_loop cursor_ok_Lex_init assms)
  have stop: "\<not> (More ?s \<and> ch ?s \<noteq> NUL)" by (rule Lex_loop_stops)
  have fin: "cursor_ok d startPos ?e (Complete ?s)"
    unfolding Complete_def using ok by (rule cursor_ok_ColourTo)
  have cp: "startPos + len \<le> currentPos ?s"
  proof (rule ccontr)
    assume "\<not> startPos + len \<le> currentPos ?s"
    then have lt: "currentPos ?s < startPos + len" by simp
    moreover have ge: "startPos \<le> currentPos ?s" using ok by (simp add: cursor_ok_def)
    ultimately have "SafeGetCharAt d (currentPos ?s) NUL \<noteq> NUL"
      using assms by (intro no_NUL_SafeGetCharAt [of d startPos len]) simp_all
    moreover have "currentPos ?s < endPos ?s" using lt ok by (simp add: cursor_ok_def split: if_splits)
    ultimately show False using stop ok by (simp add: cursor_ok_def More_def)
  qed
  have seg: "startSeg (Complete ?s) = startPos + len"
    using ok cp assms
    by (auto simp: Complete_def ColourTo_def colourPos_def cursor_ok_def split: if_splits)
  then show ?thesis using fin by (simp add: Lex_def cursor_ok_def)
qed

lemma concat_style_runs: "concat (map snd (style_runs xs)) = map snd xs"
proof (induction xs rule: style_runs.induct)
  case 1
  show ?case by simp
next
  case (2 st c xs)
  then show ?case by (auto split: list.splits)
qed

text \<open>
  C2, as stated: for every buffer, start position, length and initial style, Lex gives
  exactly one style to every position of the span. This fails on a buffer with a NUL
  character: the loop of Lex also stops at a character of value zero, so on the three
  characters a, NUL, b only position 0 gets a style and positions 1 and 2 get none.
\<close>
theorem lex_coverage_counterexample:
  "(0::int) \<le> 0 \<and> (0::int) \<le> 3 \<and> 0 + 3 \<le> int (length nul_doc)
   \<and> styleBuf (Lex nul_doc 0 3 Default) = [Default]"
  by code_simp

text \<open>
  C2, amended: for every buffer, every span inside it that holds no NUL character, and
  every initial style, Lex hands over exactly one style for every position of the span,
  in order from the start position to the end of the span; so the tokens, the maximal
  runs of one style, put together give back the text of the span, with no gap and no
  overlap.
\<close>
theorem lex_coverage:
  "0 \<le> startPos \<and> 0 \<le> len \<and> startPos + len \<le> int (length d)
     \<and> no_NUL_in_span d startPos len \<longrightarrow>
   int (length (styleBuf (Lex d startPos len initStyle))) = len
   \<and> startSeg (Lex d startPos len initStyle) = startPos + len
   \<and> concat (map snd (tokens d startPos (styleBuf (Lex d startPos len initStyle))))
       = take (nat len) (drop (nat startPos) d)"
proof (intro impI)
  assume a: "0 \<le> startPos \<and> 0 \<le> len \<and> startPos + len \<le> int (length d)
     \<and> no_NUL_in_span d startPos len"
  let ?b = "styleBuf (Lex d startPos len initStyle)"
  have c: "startSeg (Lex d startPos len initStyle) = startPos + len \<and> int (length ?b) = len"
    using a by (intro Lex_covers_span) simp_all
  then have l: "length ?b = nat len" by linarith
  have "concat (map snd (tokens d startPos ?b)) = map snd (zip ?b (drop (nat startPos) d))"
    by (simp add: tokens_def concat_style_runs)
  also have "\<dots> = take (length ?b) (drop (nat startPos) d)"
    using a l by (simp add: map_snd_zip_take min_def)
  finally show "int (length ?b) = len
   \<and> startSeg (Lex d startPos len initStyle) = startPos + len
   \<and> concat (map snd (tokens d startPos ?b)) = take (nat len) (drop (nat startPos) d)"
    using c l by simp
qed

theorem lex_coverage_witness:
  "((0::int) \<le> 0 \<and> (0::int) \<le> 11 \<and> 0 + 11 \<le> int (length foo_bar)
     \<and> no_NUL_in_span foo_bar 0 11)
   \<and> int (length (styleBuf (Lex foo_bar 0 11 Default))) = 11
   \<and> concat (map snd (tokens foo_bar 0 (styleBuf (Lex foo_bar 0 11 Default)))) = foo_bar"
proof -
  have h: "(0::int) \<le> 0 \<and> (0::int) \<le> 11 \<and> 0 + 11 \<le> int (length foo_bar)
     \<and> no_NUL_in_span foo_bar 0 11"
    by code_simp
  have t: "take (nat 11) (drop (nat 0) foo_bar) = foo_bar" by code_simp
  from lex_coverage [of 0 11 foo_bar Default] h t show ?thesis by simp
qed


section \<open>The highlighting flag\<close>





section \<open>Value names and strings\<close>



section \<open>Key paths\<close>

text \<open>
  C5. For every opening bracket met in the Default state, that is, whenever the state is
  Default after the start-of-line check and the switch of the pass, the tokenizer enters
  DeletedKey if the next non-whitespace character after the bracket and before the end
  of the line is a hyphen, and AddedKey otherwise. The bracketed key path of
  HKEY_CURRENT_USER, Software and Foo is styled AddedKey throughout, and the same path
  with a hyphen after the opening bracket DeletedKey throughout.
\<close>
theorem key_path_classification:
  "(0 \<le> currentPos (LexSwitch d (LexLineStart d s))
      \<and> state (LexSwitch d (LexLineStart d s)) = Default
      \<and> ch (LexSwitch d (LexLineStart d s)) = CHR ''['' \<longrightarrow>
      state (LexStep d s) =
        (if next_significant (rest_of_line d (currentPos (LexSwitch d (LexLineStart d s))))
              = Some (CHR ''-'')
         then DeletedKey else AddedKey))
   \<and> styleBuf (Lex key_added 0 (int (length key_added)) Default)
       = replicate (length key_added) AddedKey
   \<and> styleBuf (Lex key_deleted 0 (int (length key_deleted)) Default)
       = replicate (length key_deleted) DeletedKey"
proof (intro conjI impI)
  let ?s2 = "LexSwitch d (LexLineStart d s)"
  assume a: "0 \<le> currentPos ?s2 \<and> state ?s2 = Default \<and> ch ?s2 = CHR ''[''"
  have "IsNextNonWhitespace d (currentPos ?s2) (CHR ''-'') =
          (next_significant (rest_of_line d (currentPos ?s2)) = Some (CHR ''-''))"
    using a by (intro IsNextNonWhitespace_spec) (simp_all add: isspacechar_def)
  then show "state (LexStep d s) =
        (if next_significant (rest_of_line d (currentPos ?s2)) = Some (CHR ''-'')
         then DeletedKey else AddedKey)"
    using a by (simp add: LexStep_state LexDefault_bracket)
next
  show "styleBuf (Lex key_added 0 (int (length key_added)) Default)
       = replicate (length key_added) AddedKey"
    by code_simp
next
  show "styleBuf (Lex key_deleted 0 (int (length key_deleted)) Default)
       = replicate (length key_deleted) DeletedKey"
    by code_simp
qed

theorem key_path_classification_witness:
  "state (Lex_loop fold_doc (Lex_init fold_doc 0 12 Default)) = Operator
   \<and> currentPos (LexSwitch fold_doc (LexLineStart fold_doc
        (Lex_loop fold_doc (Lex_init fold_doc 0 12 Default)))) = 12
   \<and> state (LexSwitch fold_doc (LexLineStart fold_doc
        (Lex_loop fold_doc (Lex_init fold_doc 0 12 Default)))) = Default
   \<and> ch (LexSwitch fold_doc (LexLineStart fold_doc
        (Lex_loop fold_doc (Lex_init fold_doc 0 12 Default)))) = CHR ''[''
   \<and> next_significant (rest_of_line fold_doc 12) = Some (CHR ''K'')
   \<and> state (LexStep fold_doc (Lex_loop fold_doc (Lex_init fold_doc 0 12 Default))) = AddedKey
   \<and> currentPos (LexSwitch key_deleted (LexLineStart key_deleted
        (Lex_init key_deleted 0 33 Default))) = 0
   \<and> state (LexSwitch key_deleted (LexLineStart key_deleted
        (Lex_init key_deleted 0 33 Default))) = Default
   \<and> ch (LexSwitch key_deleted (LexLineStart key_deleted
        (Lex_init key_deleted 0 33 Default))) = CHR ''[''
   \<and> next_significant (rest_of_line key_deleted 0) = Some (CHR ''-'')
   \<and> state (LexStep key_deleted (Lex_init key_deleted 0 33 Default)) = DeletedKey"
proof -
  let ?s = "Lex_loop fold_doc (Lex_init fold_doc 0 12 Default)"
  let ?i = "Lex_init key_deleted 0 33 Default"
  have s: "state ?s = Operator"
    "currentPos (LexSwitch fold_doc (LexLineStart fold_doc ?s)) = 12"
    "state (LexSwitch fold_doc (LexLineStart fold_doc ?s)) = Default"
    "ch (LexSwitch fold_doc (LexLineStart fold_doc ?s)) = CHR ''[''"
    "next_significant (rest_of_line fold_doc 12) = Some (CHR ''K'')"
    by code_simp+
  have i: "currentPos (LexSwitch key_deleted (LexLineStart key_deleted ?i)) = 0"
    "state (LexSwitch key_deleted (LexLineStart key_deleted ?i)) = Default"
    "ch (LexSwitch key_deleted (LexLineStart key_deleted ?i)) = CHR ''[''"
    "next_significant (rest_of_line key_deleted 0) = Some (CHR ''-'')"
    by code_simp+
  have 1: "state (LexStep fold_doc ?s) = AddedKey"
    using key_path_classification [of fold_doc ?s] s by simp
  have 2: "state (LexStep key_deleted ?i) = DeletedKey"
    using key_path_classification [of key_deleted ?i] i by simp
  show ?thesis using s i 1 2 by simp
qed

section \<open>GUIDs inside strings\<close>

text \<open>
  C6. The canonical GUID literal in braces inside a quoted string is styled StringGuid
  from its opening brace to its closing brace, the quotes and the text around it keeping
  the style of the string. The code does so when it meets the opening brace in the
  String or ValueName case of its switch (the last example below). It fails to do so
  when the brace directly follows an escape sequence: in the value of CLSID, two
  backslashes and the GUID, the brace is met in the Escaped state, whose case restores
  the string state without the GUID check that the String case makes, and the whole
  literal is styled String although it has the GUID shape.
\<close>
theorem guid_after_escape_missed:
  "AtGUID guid_after_escape 10
   \<and> currentPos (Lex_after 9 guid_after_escape (Lex_init guid_after_escape 0 49 Default)) = 10
   \<and> ch (Lex_after 9 guid_after_escape (Lex_init guid_after_escape 0 49 Default)) = CHR ''{''
   \<and> state (Lex_after 9 guid_after_escape (Lex_init guid_after_escape 0 49 Default)) = Escaped
   \<and> styleBuf (Lex guid_after_escape 0 49 Default)
       = replicate 2 Operator @ replicate 6 String @ replicate 2 Escaped @ replicate 39 String
   \<and> styleBuf (Lex guid_string 0 42 Default)
       = [String, String] @ replicate 38 StringGuid @ [String, String]"
proof -
  have "guid_shape (drop (nat (10 + 1)) guid_after_escape)" by code_simp
  then have "AtGUID guid_after_escape 10" by (simp add: AtGUID_spec)
  moreover have
    "currentPos (Lex_after 9 guid_after_escape (Lex_init guid_after_escape 0 49 Default)) = 10
   \<and> ch (Lex_after 9 guid_after_escape (Lex_init guid_after_escape 0 49 Default)) = CHR ''{''
   \<and> state (Lex_after 9 guid_after_escape (Lex_init guid_after_escape 0 49 Default)) = Escaped"
    by code_simp
  moreover have "styleBuf (Lex guid_after_escape 0 49 Default)
       = replicate 2 Operator @ replicate 6 String @ replicate 2 Escaped @ replicate 39 String"
    by code_simp
  moreover have "styleBuf (Lex guid_string 0 42 Default)
       = [String, String] @ replicate 38 StringGuid @ [String, String]"
    by code_simp
  ultimately show ?thesis by blast
qed


section \<open>Fold levels of key blocks\<close>




section \<open>Writes of fold levels\<close>

lemma Fold_body_writes:
  assumes "\<forall>w\<in>set (levelWrites st). changes_level w"
  shows "\<forall>w\<in>set (levelWrites (Fold_body d styles options endP i st)). changes_level w"
  using assms
  by (auto simp: Fold_body_def Let_def SetLevel_def LevelAt_def changes_level_def)

lemma Fold_loop_writes:
  "\<forall>w\<in>set (levelWrites st). changes_level w \<Longrightarrow>
     \<forall>w\<in>set (levelWrites (Fold_loop d styles options endP i st)). changes_level w"
proof (induction d styles options endP i st rule: Fold_loop.induct)
  case (1 d styles options endP i st)
  show ?case
  proof (cases "i < endP")
    case True
    have "\<forall>w\<in>set (levelWrites (Fold_body d styles options endP i st)). changes_level w"
      using "1.prems" by (rule Fold_body_writes)
    from "1.IH" [OF True this] show ?thesis
      using True by (simp add: Fold_loop.simps [of d styles options endP i])
  next
    case False
    then show ?thesis using "1.prems"
      by (simp add: Fold_loop.simps [of d styles options endP i])
  qed
qed

text \<open>
  C8, as stated: for every line whose level Fold computes, the one extra line past the
  span included, the level is written only if it differs from the stored one. This fails
  for the extra line: on the one-line document a, the only write is that of line 1, and
  it stores the base level over the base level.
\<close>
theorem fold_writes_counterexample:
  "fold \<lparr>foldCompact = False, fold = True\<rparr>
   \<and> levelStore LevelStore_init 1 = SC_FOLDLEVELBASE
   \<and> levelWrites (Fold ''a'' [Default] \<lparr>foldCompact = False, fold = True\<rparr> 0 1 LevelStore_init)
       = [(1, SC_FOLDLEVELBASE, SC_FOLDLEVELBASE)]"
  by code_simp

text \<open>
  C8, amended: with folding enabled, every write made for a line inside the scanned span
  changes the stored level of that line; the level of the one extra line past the span is
  written always, whether or not it differs from the stored one, as the last write.
\<close>
theorem fold_writes:
  "fold options \<and> levelWrites h = [] \<longrightarrow>
     (\<forall>w\<in>set (levelWrites (Fold_scan d styles options startPos len h)). changes_level w)
     \<and> levelWrites (Fold d styles options startPos len h) =
         levelWrites (Fold_scan d styles options startPos len h)
         @ [(currLine (Fold_scan d styles options startPos len h),
             LevelAt (Fold_scan d styles options startPos len h)
               (currLine (Fold_scan d styles options startPos len h)),
             levelFromPrevious (Fold_scan d styles options startPos len h))]"
proof (intro impI conjI)
  assume a: "fold options \<and> levelWrites h = []"
  let ?st0 = "LevelStore.extend h (FoldState.fields (GetLine d startPos) 0 False)"
  have "levelWrites ?st0 = []"
    using a by (simp add: LevelStore.extend_def LevelStore.defs FoldState.defs)
  then have "\<forall>w\<in>set (levelWrites ?st0). changes_level w" by simp
  then show "\<forall>w\<in>set (levelWrites (Fold_scan d styles options startPos len h)). changes_level w"
    unfolding Fold_scan_def by (rule Fold_loop_writes)
  show "levelWrites (Fold d styles options startPos len h) =
         levelWrites (Fold_scan d styles options startPos len h)
         @ [(currLine (Fold_scan d styles options startPos len h),
             LevelAt (Fold_scan d styles options startPos len h)
               (currLine (Fold_scan d styles options startPos len h)),
             levelFromPrevious (Fold_scan d styles options startPos len h))]"
    using a
    by (simp add: Fold_def Fold_extend_def SetLevel_def LevelAt_def LevelStore.truncate_def)
qed

theorem fold_writes_witness:
  "(fold \<lparr>foldCompact = False, fold = True\<rparr> \<and> levelWrites LevelStore_init = [])
   \<and> levelWrites (Fold_scan fold_doc fold_styles \<lparr>foldCompact = False, fold = True\<rparr> 0 24
        LevelStore_init)
      = [(0, 1024, 9216), (1, 1024, 1025), (2, 1024, 9216), (3, 1024, 1025)]
   \<and> list_all changes_level (levelWrites (Fold_scan fold_doc fold_styles
          \<lparr>foldCompact = False, fold = True\<rparr> 0 24 LevelStore_init))
   \<and> levelWrites (Fold fold_doc fold_styles \<lparr>foldCompact = False, fold = True\<rparr> 0 24
        LevelStore_init)
      = [(0, 1024, 9216), (1, 1024, 1025), (2, 1024, 9216), (3, 1024, 1025), (4, 1024, 1025)]"
proof -
  have h: "fold \<lparr>foldCompact = False, fold = True\<rparr> \<and> levelWrites LevelStore_init = []"
    by (simp add: LevelStore_init_def)
  have s: "levelWrites (Fold_scan fold_doc fold_styles \<lparr>foldCompact = False, fold = True\<rparr> 0 24
        LevelStore_init)
      = [(0, 1024, 9216), (1, 1024, 1025), (2, 1024, 9216), (3, 1024, 1025)]"
    by code_simp
  have f: "levelWrites (Fold fold_doc fold_styles \<lparr>foldCompact = False, fold = True\<rparr> 0 24
        LevelStore_init)
      = [(0, 1024, 9216), (1, 1024, 1025), (2, 1024, 9216), (3, 1024, 1025), (4, 1024, 1025)]"
    by code_simp
  from fold_writes [of "\<lparr>foldCompact = False, fold = True\<rparr>" LevelStore_init fold_doc
      fold_styles 0 24] h
  have "list_all changes_level (levelWrites (Fold_scan fold_doc fold_styles
          \<lparr>foldCompact = False, fold = True\<rparr> 0 24 LevelStore_init))"
    unfolding list_all_iff by blast
  with h s f show ?thesis by blast
qed

section \<open>Setting properties\<close>

text \<open>
  C9. For every key and value passed to PropertySet: a key that is neither fold nor
  fold.compact gives the not-found result -1, and a recognized key gives the success
  result 0, whatever the value.
\<close>
theorem property_set_result:
  "(key \<noteq> ''fold'' \<and> key \<noteq> ''fold.compact'' \<longrightarrow>
      fst (PropertySet toBool opts key val) = - 1)
   \<and> (key = ''fold'' \<or> key = ''fold.compact'' \<longrightarrow>
      fst (PropertySet toBool opts key val) = 0)"
  by (auto simp: PropertySet_def OptionSet_PropertySet_def)

theorem property_set_result_witness:
  "fst (PropertySet (\<lambda>v. v = ''1'') OptionsRegistry_init ''fold'' ''1'') = 0
   \<and> fst (PropertySet (\<lambda>v. v = ''1'') OptionsRegistry_init ''fold'' ''0'') = 0
   \<and> fst (PropertySet (\<lambda>v. v = ''1'') OptionsRegistry_init ''tab.size'' ''4'') = - 1"
  using property_set_result [of "''fold''" "\<lambda>v. v = ''1''" OptionsRegistry_init "''1''"]
    property_set_result [of "''fold''" "\<lambda>v. v = ''1''" OptionsRegistry_init "''0''"]
    property_set_result [of "''tab.size''" "\<lambda>v. v = ''1''" OptionsRegistry_init "''4''"]
  by simp


section \<open>Comments across a trailing backslash\<close>

text \<open>
  C10. A comment line whose last non-whitespace character is a trailing backslash
  carries the Comment state over the line break, so the following line is styled Comment
  too. The code does so when the backslash is not the first character of its line (the
  first example below: both lines are Comment, the third line is Default again). It
  fails to do so for a comment line that is a lone backslash: in the text of a comment
  ending in a backslash, a line that is only a backslash, and the line ab, the second
  line is styled Comment and ends in a backslash, yet the third line is styled Default.
  The backward scan of IsPrevNonWhitespace tests for the beginning of the line before it
  reads a character, so it never reads the first character of a line, except on the
  first line of the text, where it does.
\<close>
theorem comment_continuation_lost:
  "styleBuf (Lex lone_backslash 0 10 Default) = replicate 8 Comment @ [Default, Default]
   \<and> next_significant (line_before lone_backslash 8) = Some BSLASH
   \<and> \<not> IsPrevNonWhitespace lone_backslash 8 BSLASH
   \<and> IsPrevNonWhitespace lone_backslash 6 BSLASH
   \<and> IsPrevNonWhitespace ([BSLASH, LF] @ ''ab'') 2 BSLASH
   \<and> styleBuf (Lex comment_doc 0 13 Default) = replicate 11 Comment @ [Default, Default]"
  by code_simp


end
